theory Spec2Isabelle
  imports Complex_Main
begin

section \<open>Python string primitives used by the QA system\<close>

text \<open>
  Strings are character lists, a character being a code point below 256 (Latin-1);
  \<open>ord\<close> is Python's \<^verbatim>\<open>ord\<close>. The character classes are those of Python 3 on
  these code points: \<open>is_space\<close> is \<^verbatim>\<open>str.isspace\<close>, the characters that
  \<^verbatim>\<open>strip()\<close> and \<^verbatim>\<open>lstrip()\<close> remove, with U+0085 and U+00A0 among them;
  \<open>is_word\<close> is the class \<^verbatim>\<open>\w\<close> of \<^verbatim>\<open>re\<close> on \<^verbatim>\<open>str\<close>, the alphanumeric
  characters and the underscore, accented letters included; \<open>lower_char\<close> is
  \<^verbatim>\<open>str.lower\<close>, which moves A to Z and U+00C0 to U+00DE, but for the
  multiplication sign U+00D7, up by 32. Strings with code points from 256 on are
  outside this type.
\<close>

definition ord :: "char \<Rightarrow> nat" where
  "ord c = of_char c"

definition in_ranges :: "nat \<Rightarrow> (nat \<times> nat) list \<Rightarrow> bool" where
  "in_ranges n rs = list_ex (\<lambda>r. fst r \<le> n \<and> n \<le> snd r) rs"

definition is_space :: "char \<Rightarrow> bool" where
  "is_space c = in_ranges (ord c) [(9, 13), (28, 32), (133, 133), (160, 160)]"

definition is_word :: "char \<Rightarrow> bool" where
  "is_word c = in_ranges (ord c)
     [(48, 57), (65, 90), (95, 95), (97, 122), (170, 170), (178, 179), (181, 181),
      (185, 186), (188, 190), (192, 214), (216, 246), (248, 255)]"

definition is_upper :: "char \<Rightarrow> bool" where
  "is_upper c = in_ranges (ord c) [(65, 90), (192, 214), (216, 222)]"

definition lower_char :: "char \<Rightarrow> char" where
  "lower_char c = (if is_upper c then char_of (ord c + 32) else c)"

definition lower :: "string \<Rightarrow> string" where
  "lower s = map lower_char s"

definition lstrip :: "string \<Rightarrow> string" where
  "lstrip s = dropWhile is_space s"

definition rstrip :: "string \<Rightarrow> string" where
  "rstrip s = rev (dropWhile is_space (rev s))"

definition strip :: "string \<Rightarrow> string" where
  "strip s = rstrip (lstrip s)"

text \<open>\<^verbatim>\<open>s.startswith(p)\<close>.\<close>

definition startswith :: "string \<Rightarrow> string \<Rightarrow> bool" where
  "startswith s p = (take (length p) s = p)"

text \<open>\<^verbatim>\<open>s.find(sep)\<close>: the least index at which \<open>sep\<close> occurs, \<open>None\<close> for \<^verbatim>\<open>-1\<close>.\<close>

fun find_str :: "string \<Rightarrow> string \<Rightarrow> nat option" where
  "find_str [] sep = (if sep = [] then Some 0 else None)"
| "find_str (c # cs) sep =
     (if startswith (c # cs) sep then Some 0
      else (case find_str cs sep of None \<Rightarrow> None | Some i \<Rightarrow> Some (Suc i)))"

text \<open>\<^verbatim>\<open>sub in s\<close>.\<close>

definition contains :: "string \<Rightarrow> string \<Rightarrow> bool" where
  "contains s sub = (find_str s sub \<noteq> None)"

text \<open>\<^verbatim>\<open>s.split(c)\<close> for a separator of one character.\<close>

fun split_char :: "char \<Rightarrow> string \<Rightarrow> string list" where
  "split_char c [] = [[]]"
| "split_char c (x # xs) =
     (if x = c then [] # split_char c xs
      else (case split_char c xs of
              [] \<Rightarrow> [[x]]
            | p # ps \<Rightarrow> (x # p) # ps))"

text \<open>\<^verbatim>\<open>sep.join(parts)\<close>.\<close>

fun join :: "string \<Rightarrow> string list \<Rightarrow> string" where
  "join sep [] = []"
| "join sep [p] = p"
| "join sep (p # q # ps) = p @ sep @ join sep (q # ps)"

text \<open>
  \<^verbatim>\<open>re.findall(r"\w+", s)\<close>: the maximal runs of word characters, left to right.
  The first argument is the run being read.
\<close>

fun findall_from :: "string \<Rightarrow> string \<Rightarrow> string list" where
  "findall_from cur [] = (if cur = [] then [] else [cur])"
| "findall_from cur (c # cs) =
     (if is_word c then findall_from (cur @ [c]) cs
      else (if cur = [] then [] else [cur]) @ findall_from [] cs)"

definition findall_words :: "string \<Rightarrow> string list" where
  "findall_words s = findall_from [] s"

text \<open>Truth value of an \<^verbatim>\<open>Optional[str]\<close>, and \<^verbatim>\<open>x or None\<close>.\<close>

fun truthy :: "string option \<Rightarrow> bool" where
  "truthy None = False"
| "truthy (Some s) = (s \<noteq> [])"

definition or_none :: "string option \<Rightarrow> string option" where
  "or_none x = (if truthy x then x else None)"


section \<open>The QA system (qa.py)\<close>

subsection \<open>Fixed word lists and messages\<close>

definition stopwords :: "string set" where
  "stopwords = set [
     ''the'', ''a'', ''an'', ''and'', ''or'', ''but'', ''if'', ''then'', ''else'',
     ''is'', ''am'', ''are'', ''was'', ''were'', ''be'', ''been'', ''being'',
     ''to'', ''of'', ''in'', ''on'', ''at'', ''for'', ''with'', ''by'', ''from'',
     ''as'', ''it'', ''this'', ''that'', ''these'', ''those'',
     ''do'', ''does'', ''did'', ''doing'',
     ''have'', ''has'', ''had'', ''having'',
     ''i'', ''you'', ''he'', ''she'', ''we'', ''they'', ''them'', ''him'', ''her'',
     ''my'', ''your'', ''his'', ''their'', ''our'',
     ''me'', ''us'',
     ''what'', ''when'', ''where'', ''why'', ''how'',
     ''many'', ''much'',
     ''please'', ''can'', ''could'', ''would'', ''should'',
     ''member'', ''user'', ''message'', ''timestamp'', ''id'', ''user_id'']"

definition topic_groups :: "string set list" where
  "topic_groups = [
     set [''car'', ''cars'', ''vehicle'', ''vehicles'', ''garage'', ''truck'', ''suv'',
          ''sedan''],
     set [''restaurant'', ''restaurants'', ''dinner'', ''lunch'', ''brunch'',
          ''cafe'', ''bistro'', ''eat'', ''food'', ''dining'', ''table'', ''reservation''],
     set [''trip'', ''travel'', ''flight'', ''vacation'', ''holiday'', ''london'',
          ''journey'']]"

definition msg_no_data :: string where
  "msg_no_data =
     ''I don't have any member messages to answer from yet. Please try again later.''"

definition msg_empty_question :: string where
  "msg_empty_question = ''Question has no meaningful content.''"

definition msg_not_available :: string where
  "msg_not_available = ''The information is not available in the member messages.''"

subsection \<open>Internal helpers\<close>

definition extract_user_name :: "string \<Rightarrow> string option" where
  "extract_user_name doc =
     (if \<not> startswith doc ''User:'' then None
      else
        let rest = lstrip (drop (length ''User:'') doc);
            name = (case find_str rest '' |'' of
                      None \<Rightarrow> strip rest
                    | Some end_idx \<Rightarrow> strip (take end_idx rest))
        in or_none (Some name))"

text \<open>
  One turn of the loop of \<^verbatim>\<open>_parse_doc_fields\<close> over the trimmed parts; the triple is
  \<open>(user_name, timestamp, message)\<close>.
\<close>

definition parse_part ::
  "string \<Rightarrow> string option \<times> string option \<times> string option
          \<Rightarrow> string option \<times> string option \<times> string option" where
  "parse_part part acc =
     (case acc of (user_name, timestamp, message) \<Rightarrow>
        if startswith part ''User:'' then
          (Some (strip (drop (length ''User:'') part)), timestamp, message)
        else if startswith part ''Timestamp:'' then
          (user_name, Some (strip (drop (length ''Timestamp:'') part)), message)
        else if startswith part ''Message:'' then
          (user_name, timestamp, Some (strip (drop (length ''Message:'') part)))
        else (user_name, timestamp, message))"

definition parse_doc_fields ::
  "string \<Rightarrow> string option \<times> string option \<times> string option" where
  "parse_doc_fields doc =
     (let parts = map strip (split_char CHR ''|'' doc)
      in case fold parse_part parts (None, None, None) of
           (user_name, timestamp, message) \<Rightarrow>
             (or_none user_name, or_none timestamp, or_none message))"

definition tokenize :: "string \<Rightarrow> string set" where
  "tokenize text = set (filter (\<lambda>t. t \<notin> stopwords) (findall_words (lower text)))"

definition topic_overlap_ok :: "string \<Rightarrow> string \<Rightarrow> string option \<Rightarrow> bool" where
  "topic_overlap_ok question answer_doc user_name =
     (let q_tokens0 = tokenize question;
          a_tokens0 = tokenize answer_doc;
          name_parts = (if truthy user_name then findall_words (lower (the user_name))
                        else []);
          q_tokens = q_tokens0 - set name_parts;
          a_tokens = a_tokens0 - set name_parts
      in if q_tokens \<inter> a_tokens \<noteq> {} then True
         else list_ex (\<lambda>g. q_tokens \<inter> g \<noteq> {} \<and> a_tokens \<inter> g \<noteq> {}) topic_groups)"

subsection \<open>State, index and scoring\<close>

text \<open>
  The attributes of a \<^verbatim>\<open>QASystem\<close> that \<^verbatim>\<open>build\<close> assigns. The vectorizer and the
  document matrix are objects of scikit-learn, of types \<open>'v\<close> and \<open>'m\<close>; \<open>None\<close> is
  Python's \<^verbatim>\<open>None\<close>.
\<close>

record ('v, 'm) qa_system =
  vectorizer :: "'v option"
  doc_matrix :: "'m option"
  documents :: "string list"
  user_names :: "string option list"

datatype error = ValueError | IndexError | LibraryError

definition init :: "('v, 'm) qa_system" where
  "init = \<lparr>vectorizer = None, doc_matrix = None, documents = [], user_names = []\<rparr>"

text \<open>
  \<^verbatim>\<open>build\<close>. The library enters as two parameters: \<open>new_vectorizer\<close> is the object
  \<^verbatim>\<open>TfidfVectorizer(ngram_range=(1, 2), stop_words="english")\<close>, and
  \<open>fit_transform v docs\<close> gives the vectorizer as the call leaves it, with the matrix or
  the exception raised (an empty vocabulary raises \<^verbatim>\<open>ValueError\<close>). The result pairs
  the exception that left \<^verbatim>\<open>build\<close>, if any, with the attributes as they are then.
\<close>

definition build ::
  "'v \<Rightarrow> ('v \<Rightarrow> string list \<Rightarrow> 'v \<times> (error + 'm)) \<Rightarrow> string list
     \<Rightarrow> ('v, 'm) qa_system \<Rightarrow> error option \<times> ('v, 'm) qa_system" where
  "build new_vectorizer fit_transform docs self =
     (let self1 = self\<lparr>documents := docs\<rparr>
      in if documents self1 = [] then
           (None, self1\<lparr>vectorizer := None, doc_matrix := None, user_names := []\<rparr>)
         else
           let self2 = self1\<lparr>user_names := map extract_user_name (documents self1)\<rparr>
           in case fit_transform new_vectorizer (documents self2) of
                (v, Inl e) \<Rightarrow> (Some e, self2\<lparr>vectorizer := Some v\<rparr>)
              | (v, Inr m) \<Rightarrow> (None, self2\<lparr>vectorizer := Some v, doc_matrix := Some m\<rparr>))"

subsection \<open>Name resolution (steps 1a and 1b of \<^verbatim>\<open>answer\<close>)\<close>

text \<open>
  \<^verbatim>\<open>matches_by_full_name.setdefault(name, []).append(idx)\<close> on a dictionary kept as an
  association list in insertion order.
\<close>

fun setdefault_append ::
  "(string \<times> nat list) list \<Rightarrow> string \<Rightarrow> nat \<Rightarrow> (string \<times> nat list) list" where
  "setdefault_append [] name idx = [(name, [idx])]"
| "setdefault_append ((k, v) # d) name idx =
     (if k = name then (k, v @ [idx]) # d else (k, v) # setdefault_append d name idx)"

definition name_tokens :: "string \<Rightarrow> string set" where
  "name_tokens name = set (filter (\<lambda>t. 3 \<le> length t) (findall_words (lower name)))"

definition token_step ::
  "string set \<Rightarrow> nat \<times> string option \<Rightarrow> (string \<times> nat list) list
     \<Rightarrow> (string \<times> nat list) list" where
  "token_step q_tokens p d =
     (case p of (idx, name) \<Rightarrow>
        if \<not> truthy name then d
        else if name_tokens (the name) \<inter> q_tokens \<noteq> {}
             then setdefault_append d (the name) idx
             else d)"

definition full_match_indices :: "string option list \<Rightarrow> string \<Rightarrow> nat list" where
  "full_match_indices names q_lower =
     map fst (filter (\<lambda>(idx, name). truthy name \<and> contains q_lower (lower (the name)))
                     (enumerate 0 names))"

definition matches_by_full_name ::
  "string option list \<Rightarrow> string set \<Rightarrow> (string \<times> nat list) list" where
  "matches_by_full_name names q_tokens = fold (token_step q_tokens) (enumerate 0 names) []"

text \<open>
  The pair \<open>(candidate_indices, restricted_by_name)\<close> that lines 206 to 246 compute from
  the trimmed question; \<open>n_docs\<close> is \<^verbatim>\<open>len(self.documents)\<close>.
\<close>

definition resolve_name ::
  "string option list \<Rightarrow> nat \<Rightarrow> string \<Rightarrow> nat list \<times> bool" where
  "resolve_name names n_docs question =
     (let q_lower = lower question;
          q_tokens = tokenize question;
          full = full_match_indices names q_lower
      in if full \<noteq> [] then (full, True)
         else (case matches_by_full_name names q_tokens of
                 [(name, only_indices)] \<Rightarrow> (only_indices, True)
               | _ \<Rightarrow> ([0..<n_docs], False)))"

subsection \<open>Scoring, selection and formatting\<close>

text \<open>The loop that overwrites with \<open>0.0\<close> every score at an index not allowed.\<close>

definition zero_outside :: "nat list \<Rightarrow> real list \<Rightarrow> real list" where
  "zero_outside allowed scores =
     fold (\<lambda>i sc. if i \<notin> set allowed then sc[i := 0] else sc) [0..<length scores] scores"

definition mask_scores :: "nat list \<Rightarrow> nat \<Rightarrow> real list \<Rightarrow> real list" where
  "mask_scores candidate_indices n_docs scores =
     (if candidate_indices \<noteq> [] \<and> length candidate_indices < n_docs
      then zero_outside candidate_indices scores else scores)"

text \<open>
  \<^verbatim>\<open>scores.argmax()\<close>: the first index of a greatest entry; on an empty array numpy
  raises \<^verbatim>\<open>ValueError\<close>, here \<open>None\<close>.
\<close>

fun argmax_loop :: "nat \<Rightarrow> real \<Rightarrow> nat \<Rightarrow> real list \<Rightarrow> nat" where
  "argmax_loop best_i best_v i [] = best_i"
| "argmax_loop best_i best_v i (x # xs) =
     (if best_v < x then argmax_loop i x (Suc i) xs
      else argmax_loop best_i best_v (Suc i) xs)"

definition argmax :: "real list \<Rightarrow> nat option" where
  "argmax xs = (case xs of [] \<Rightarrow> None | x # rest \<Rightarrow> Some (argmax_loop 0 x 1 rest))"

text \<open>
  Scores are float64 values, taken as the real numbers they denote: a finite float64
  is a rational with a power of two as denominator, and \<^verbatim>\<open><\<close> and \<^verbatim>\<open><=\<close> on two
  of them compare these numbers. The literals \<^verbatim>\<open>0.05\<close> and \<^verbatim>\<open>0.15\<close> are the
  float64 values nearest to 1/20 and 3/20 (\<^verbatim>\<open>0x1.999999999999ap-5\<close> and
  \<^verbatim>\<open>0x1.3333333333333p-3\<close>); \<^verbatim>\<open>0.0\<close> is 0.
\<close>

definition float_0_05 :: real where
  "float_0_05 = 3602879701896397 / 2 ^ 56"

definition float_0_15 :: real where
  "float_0_15 = 5404319552844595 / 2 ^ 55"

definition min_score :: "bool \<Rightarrow> real" where
  "min_score restricted_by_name = (if restricted_by_name then float_0_05 else float_0_15)"

text \<open>Lines 277 to 302: parse the best document, check the topic, format.\<close>

definition answer_from_doc :: "string \<Rightarrow> string \<Rightarrow> string" where
  "answer_from_doc question best_doc =
     (case parse_doc_fields best_doc of (user_name, timestamp, message) \<Rightarrow>
        if \<not> topic_overlap_ok question best_doc user_name then msg_not_available
        else if \<not> truthy user_name \<and> \<not> truthy timestamp \<and> \<not> truthy message
        then best_doc
        else
          let parts = (if truthy user_name then [''Member: '' @ the user_name] else [])
                    @ (if truthy timestamp then [''Timestamp: '' @ the timestamp] else [])
                    @ (if truthy message then [''Message: '' @ the message] else [])
          in if parts \<noteq> [] then join '' | '' parts else best_doc)"

text \<open>
  \<^verbatim>\<open>answer\<close>. The parameter \<open>linear_kernel v m q\<close> is the array
  \<^verbatim>\<open>linear_kernel(v.transform([q]), m).flatten()\<close>, or the exception the library raises.
  Reading \<^verbatim>\<open>self.documents[best_idx]\<close> out of range raises \<^verbatim>\<open>IndexError\<close>.
\<close>

definition answer ::
  "('v \<Rightarrow> 'm \<Rightarrow> string \<Rightarrow> error + real list) \<Rightarrow> ('v, 'm) qa_system \<Rightarrow> string
     \<Rightarrow> error + string" where
  "answer linear_kernel self question0 =
     (if documents self = [] \<or> vectorizer self = None \<or> doc_matrix self = None
      then Inr msg_no_data
      else
        let question = strip question0
        in if question = [] then Inr msg_empty_question
           else
             (case resolve_name (user_names self) (length (documents self)) question of
                (candidate_indices, restricted_by_name) \<Rightarrow>
                  (case linear_kernel (the (vectorizer self)) (the (doc_matrix self)) question of
                     Inl e \<Rightarrow> Inl e
                   | Inr scores0 \<Rightarrow>
                       let scores = mask_scores candidate_indices
                                      (length (documents self)) scores0
                       in (case argmax scores of
                             None \<Rightarrow> Inl ValueError
                           | Some best_idx \<Rightarrow>
                               let best_score = scores ! best_idx
                               in if best_score \<le> 0
                                     \<or> best_score < min_score restricted_by_name
                                  then Inr msg_not_available
                                  else if length (documents self) \<le> best_idx
                                  then Inl IndexError
                                  else Inr (answer_from_doc question
                                              (documents self ! best_idx))))))"

subsection \<open>The call on an object store\<close>

text \<open>
  To follow what a call of \<^verbatim>\<open>answer\<close> writes, its body is given once more with the
  objects in a store: one cell for each object, \<open>next_addr\<close> being the first address
  not yet in use. The instance holds the addresses of its document list, its name list,
  its vectorizer and its matrix (\<open>None\<close> for \<^verbatim>\<open>None\<close>), and an attribute is read
  through the instance at the moment of the read. Every list, dictionary, set and
  array that the body builds and then updates is allocated (\<open>alloc\<close>); every update in
  place (\<^verbatim>\<open>append\<close>, \<^verbatim>\<open>setdefault\<close>, \<^verbatim>\<open>discard\<close>, \<^verbatim>\<open>scores[i] = 0.0\<close>) is a
  \<open>put\<close> at the address that the variable holds, and assigning one variable to another
  copies the address. Strings, numbers, tuples and the collections that are never
  updated after they are made are values. The library reads the vectorizer and the
  matrix, and what it returns is a new array (\<^verbatim>\<open>flatten()\<close> copies). A cell of another
  kind than the one read gives the empty value; \<open>well_formed\<close> says that the instance
  and what it refers to lie below a bound.
\<close>

datatype ('v, 'm) obj =
    Instance nat nat "nat option" "nat option"
  | DocList "string list"
  | NameList "string option list"
  | VectorizerObj 'v
  | MatrixObj 'm
  | IndexList "nat list"
  | IndexDict "(string \<times> nat) list"
  | ScoreArray "real list"
  | TokenSet "string set"
  | PartList "string list"

record ('v, 'm) store =
  cells :: "nat \<Rightarrow> ('v, 'm) obj option"
  next_addr :: nat

definition alloc :: "('v, 'm) obj \<Rightarrow> ('v, 'm) store \<Rightarrow> nat \<times> ('v, 'm) store" where
  "alloc ob s = (next_addr s, s\<lparr>cells := (cells s)(next_addr s \<mapsto> ob), next_addr := Suc (next_addr s)\<rparr>)"

definition put :: "nat \<Rightarrow> ('v, 'm) obj \<Rightarrow> ('v, 'm) store \<Rightarrow> ('v, 'm) store" where
  "put a ob s = s\<lparr>cells := (cells s)(a \<mapsto> ob)\<rparr>"

definition doc_list :: "('v, 'm) store \<Rightarrow> nat \<Rightarrow> string list" where
  "doc_list s a = (case cells s a of Some (DocList xs) \<Rightarrow> xs | _ \<Rightarrow> [])"

definition name_list :: "('v, 'm) store \<Rightarrow> nat \<Rightarrow> string option list" where
  "name_list s a = (case cells s a of Some (NameList xs) \<Rightarrow> xs | _ \<Rightarrow> [])"

definition index_list :: "('v, 'm) store \<Rightarrow> nat \<Rightarrow> nat list" where
  "index_list s a = (case cells s a of Some (IndexList xs) \<Rightarrow> xs | _ \<Rightarrow> [])"

definition index_dict :: "('v, 'm) store \<Rightarrow> nat \<Rightarrow> (string \<times> nat) list" where
  "index_dict s a = (case cells s a of Some (IndexDict d) \<Rightarrow> d | _ \<Rightarrow> [])"

definition score_array :: "('v, 'm) store \<Rightarrow> nat \<Rightarrow> real list" where
  "score_array s a = (case cells s a of Some (ScoreArray xs) \<Rightarrow> xs | _ \<Rightarrow> [])"

definition token_set :: "('v, 'm) store \<Rightarrow> nat \<Rightarrow> string set" where
  "token_set s a = (case cells s a of Some (TokenSet xs) \<Rightarrow> xs | _ \<Rightarrow> {})"

definition part_list :: "('v, 'm) store \<Rightarrow> nat \<Rightarrow> string list" where
  "part_list s a = (case cells s a of Some (PartList xs) \<Rightarrow> xs | _ \<Rightarrow> [])"

definition self_documents :: "('v, 'm) store \<Rightarrow> nat \<Rightarrow> string list" where
  "self_documents s self =
     (case cells s self of Some (Instance d n v m) \<Rightarrow> doc_list s d | _ \<Rightarrow> [])"

definition self_user_names :: "('v, 'm) store \<Rightarrow> nat \<Rightarrow> string option list" where
  "self_user_names s self =
     (case cells s self of Some (Instance d n v m) \<Rightarrow> name_list s n | _ \<Rightarrow> [])"

definition self_vectorizer :: "('v, 'm) store \<Rightarrow> nat \<Rightarrow> 'v option" where
  "self_vectorizer s self =
     (case cells s self of
        Some (Instance d n (Some v) m) \<Rightarrow>
          (case cells s v of Some (VectorizerObj x) \<Rightarrow> Some x | _ \<Rightarrow> None)
      | _ \<Rightarrow> None)"

definition self_doc_matrix :: "('v, 'm) store \<Rightarrow> nat \<Rightarrow> 'm option" where
  "self_doc_matrix s self =
     (case cells s self of
        Some (Instance d n v (Some m)) \<Rightarrow>
          (case cells s m of Some (MatrixObj x) \<Rightarrow> Some x | _ \<Rightarrow> None)
      | _ \<Rightarrow> None)"

definition view :: "('v, 'm) store \<Rightarrow> nat \<Rightarrow> ('v, 'm) qa_system" where
  "view s self = \<lparr>vectorizer = self_vectorizer s self, doc_matrix = self_doc_matrix s self,
                   documents = self_documents s self, user_names = self_user_names s self\<rparr>"

text \<open>Line 114: the set comprehension of \<^verbatim>\<open>_tokenize\<close> makes a new set.\<close>

definition tokenize_st :: "string \<Rightarrow> ('v, 'm) store \<Rightarrow> nat \<times> ('v, 'm) store" where
  "tokenize_st text s = alloc (TokenSet (tokenize text)) s"

text \<open>\<^verbatim>\<open>xs.append(idx)\<close>, and the body of the loop of lines 216 to 218.\<close>

definition list_append :: "nat \<Rightarrow> nat \<Rightarrow> ('v, 'm) store \<Rightarrow> ('v, 'm) store" where
  "list_append a idx s = put a (IndexList (index_list s a @ [idx])) s"

definition full_match_step ::
  "string \<Rightarrow> nat \<Rightarrow> nat \<times> string option \<Rightarrow> ('v, 'm) store \<Rightarrow> ('v, 'm) store" where
  "full_match_step q_lower full p s =
     (case p of (idx, name) \<Rightarrow>
        if truthy name \<and> contains q_lower (lower (the name)) then list_append full idx s
        else s)"

text \<open>
  Line 235: the list \<^verbatim>\<open>[]\<close> is made before \<^verbatim>\<open>setdefault\<close> looks the key up; the
  call returns the list under the key, which is the new one when the key was missing.
\<close>

definition setdefault_st :: "nat \<Rightarrow> string \<Rightarrow> ('v, 'm) store \<Rightarrow> nat \<times> ('v, 'm) store" where
  "setdefault_st d name s =
     (case alloc (IndexList []) s of (new_list, s1) \<Rightarrow>
        (case map_of (index_dict s1 d) name of
           Some a \<Rightarrow> (a, s1)
         | None \<Rightarrow> (new_list, put d (IndexDict (index_dict s1 d @ [(name, new_list)])) s1)))"

definition token_step_st ::
  "nat \<Rightarrow> nat \<Rightarrow> nat \<times> string option \<Rightarrow> ('v, 'm) store \<Rightarrow> ('v, 'm) store" where
  "token_step_st q_tokens d p s =
     (case p of (idx, name) \<Rightarrow>
        if \<not> truthy name then s
        else if name_tokens (the name) \<inter> token_set s q_tokens \<noteq> {}
             then (case setdefault_st d (the name) s of (a, s1) \<Rightarrow> list_append a idx s1)
             else s)"

text \<open>
  Lines 211 to 246. The result holds the address of \<^verbatim>\<open>candidate_indices\<close> at the end:
  that of \<^verbatim>\<open>full_match_indices\<close>, of the one list in the dictionary, or of a new
  list of all positions.
\<close>

definition resolve_name_st ::
  "nat \<Rightarrow> string \<Rightarrow> nat \<Rightarrow> ('v, 'm) store \<Rightarrow> (nat \<times> bool) \<times> ('v, 'm) store" where
  "resolve_name_st self question q_tokens s =
     (case alloc (IndexList [0..<length (self_documents s self)]) s of (candidate_indices, s1) \<Rightarrow>
      case alloc (IndexList []) s1 of (full, s2) \<Rightarrow>
        let s3 = fold (full_match_step (lower question) full)
                      (enumerate 0 (self_user_names s2 self)) s2
        in if index_list s3 full \<noteq> [] then ((full, True), s3)
           else
             (case alloc (IndexDict []) s3 of (d, s4) \<Rightarrow>
                let s5 = fold (token_step_st q_tokens d)
                              (enumerate 0 (self_user_names s4 self)) s4
                in (case index_dict s5 d of
                      [(name, only_indices)] \<Rightarrow> ((only_indices, True), s5)
                    | _ \<Rightarrow>
                      (case alloc (IndexList [0..<length (self_documents s5 self)]) s5 of
                         (all_indices, s6) \<Rightarrow> ((all_indices, False), s6)))))"

text \<open>Lines 254 to 258, on the array at address \<open>scores\<close>.\<close>

definition mask_st :: "nat \<Rightarrow> nat \<Rightarrow> nat \<Rightarrow> ('v, 'm) store \<Rightarrow> ('v, 'm) store" where
  "mask_st self candidate_indices scores s =
     (if index_list s candidate_indices \<noteq> []
         \<and> length (index_list s candidate_indices) < length (self_documents s self)
      then
        let allowed = set (index_list s candidate_indices)
        in fold (\<lambda>i s. if i \<notin> allowed
                         then put scores (ScoreArray ((score_array s scores)[i := 0])) s
                         else s)
                [0..<length (score_array s scores)] s
      else s)"

text \<open>Lines 129 to 151: two new token sets, shrunk in place by the name's words.\<close>

definition set_discard :: "nat \<Rightarrow> string \<Rightarrow> ('v, 'm) store \<Rightarrow> ('v, 'm) store" where
  "set_discard a x s = put a (TokenSet (token_set s a - {x})) s"

definition topic_overlap_ok_st ::
  "string \<Rightarrow> string \<Rightarrow> string option \<Rightarrow> ('v, 'm) store \<Rightarrow> bool \<times> ('v, 'm) store" where
  "topic_overlap_ok_st question answer_doc user_name s =
     (case tokenize_st question s of (q_tokens, s1) \<Rightarrow>
      case tokenize_st answer_doc s1 of (a_tokens, s2) \<Rightarrow>
        let s3 = (if truthy user_name
                  then fold (\<lambda>np s. set_discard a_tokens np (set_discard q_tokens np s))
                            (findall_words (lower (the user_name))) s2
                  else s2)
        in (if token_set s3 q_tokens \<inter> token_set s3 a_tokens \<noteq> {} then True
            else list_ex (\<lambda>g. token_set s3 q_tokens \<inter> g \<noteq> {} \<and> token_set s3 a_tokens \<inter> g \<noteq> {})
                         topic_groups,
            s3))"

text \<open>Lines 277 to 302: the list \<^verbatim>\<open>parts\<close> is new and grows by \<^verbatim>\<open>append\<close>.\<close>

definition part_append :: "nat \<Rightarrow> string \<Rightarrow> ('v, 'm) store \<Rightarrow> ('v, 'm) store" where
  "part_append a p s = put a (PartList (part_list s a @ [p])) s"

definition answer_from_doc_st ::
  "string \<Rightarrow> string \<Rightarrow> ('v, 'm) store \<Rightarrow> string \<times> ('v, 'm) store" where
  "answer_from_doc_st question best_doc s =
     (case parse_doc_fields best_doc of (user_name, timestamp, message) \<Rightarrow>
      case topic_overlap_ok_st question best_doc user_name s of (ok, s1) \<Rightarrow>
        if \<not> ok then (msg_not_available, s1)
        else if \<not> truthy user_name \<and> \<not> truthy timestamp \<and> \<not> truthy message
        then (best_doc, s1)
        else
          (case alloc (PartList []) s1 of (parts, s2) \<Rightarrow>
             let s3 = (if truthy user_name
                       then part_append parts (''Member: '' @ the user_name) s2 else s2);
                 s4 = (if truthy timestamp
                       then part_append parts (''Timestamp: '' @ the timestamp) s3 else s3);
                 s5 = (if truthy message
                       then part_append parts (''Message: '' @ the message) s4 else s4)
             in (if part_list s5 parts \<noteq> [] then join '' | '' (part_list s5 parts)
                 else best_doc, s5)))"

text \<open>Lines 192 to 302.\<close>

definition answer_st ::
  "('v \<Rightarrow> 'm \<Rightarrow> string \<Rightarrow> error + real list) \<Rightarrow> nat \<Rightarrow> string \<Rightarrow> ('v, 'm) store
     \<Rightarrow> (error + string) \<times> ('v, 'm) store" where
  "answer_st linear_kernel self question0 s =
     (if self_documents s self = [] \<or> self_vectorizer s self = None
         \<or> self_doc_matrix s self = None
      then (Inr msg_no_data, s)
      else
        let question = strip question0
        in if question = [] then (Inr msg_empty_question, s)
           else
             (case tokenize_st question s of (q_tokens, s1) \<Rightarrow>
              case resolve_name_st self question q_tokens s1 of
                ((candidate_indices, restricted_by_name), s2) \<Rightarrow>
                  (case linear_kernel (the (self_vectorizer s2 self))
                          (the (self_doc_matrix s2 self)) question of
                     Inl e \<Rightarrow> (Inl e, s2)
                   | Inr scores0 \<Rightarrow>
                       (case alloc (ScoreArray scores0) s2 of (scores, s3) \<Rightarrow>
                          let s4 = mask_st self candidate_indices scores s3
                          in (case argmax (score_array s4 scores) of
                                None \<Rightarrow> (Inl ValueError, s4)
                              | Some best_idx \<Rightarrow>
                                  let best_score = score_array s4 scores ! best_idx
                                  in if best_score \<le> 0
                                        \<or> best_score < min_score restricted_by_name
                                     then (Inr msg_not_available, s4)
                                     else if length (self_documents s4 self) \<le> best_idx
                                     then (Inl IndexError, s4)
                                     else
                                       (case answer_from_doc_st question
                                               (self_documents s4 self ! best_idx) s4 of
                                          (r, s5) \<Rightarrow> (Inr r, s5)))))))"

definition well_formed :: "nat \<Rightarrow> ('v, 'm) store \<Rightarrow> nat \<Rightarrow> bool" where
  "well_formed n s self =
     (case cells s self of
        Some (Instance d nm v m) \<Rightarrow>
          self < n \<and> d < n \<and> nm < n
          \<and> (case v of None \<Rightarrow> True | Some a \<Rightarrow> a < n)
          \<and> (case m of None \<Rightarrow> True | Some a \<Rightarrow> a < n)
      | _ \<Rightarrow> False)"


section \<open>Flattening raw messages (extractors.py)\<close>

text \<open>
  A value of a raw record: \<^verbatim>\<open>None\<close>, a string, or anything else, given by its truth
  value and its \<^verbatim>\<open>str()\<close>. A raw message is a dictionary or some other object, given
  by its \<^verbatim>\<open>str()\<close>.
\<close>

datatype pyval = PyNone | PyStr string | PyOther bool string

fun py_truthy :: "pyval \<Rightarrow> bool" where
  "py_truthy PyNone = False"
| "py_truthy (PyStr s) = (s \<noteq> [])"
| "py_truthy (PyOther b s) = b"

fun py_str :: "pyval \<Rightarrow> string" where
  "py_str PyNone = ''None''"
| "py_str (PyStr s) = s"
| "py_str (PyOther b s) = s"

datatype raw_message = Dict "(string \<times> pyval) list" | NotDict string

definition py_get :: "(string \<times> pyval) list \<Rightarrow> string \<Rightarrow> pyval" where
  "py_get d k = (case map_of d k of None \<Rightarrow> PyNone | Some v \<Rightarrow> v)"

definition py_or :: "pyval \<Rightarrow> pyval \<Rightarrow> pyval" where
  "py_or a b = (if py_truthy a then a else b)"

definition labelled :: "string \<Rightarrow> (string \<times> pyval) list \<Rightarrow> string \<Rightarrow> string list" where
  "labelled label d k =
     (case map_of d k of None \<Rightarrow> [] | Some v \<Rightarrow> [label @ '': '' @ py_str v])"

text \<open>
  The body of the loop of \<^verbatim>\<open>build_documents\<close>; \<open>str_dict\<close> is \<^verbatim>\<open>str\<close> on a
  dictionary.
\<close>

definition build_document :: "((string \<times> pyval) list \<Rightarrow> string) \<Rightarrow> raw_message \<Rightarrow> string" where
  "build_document str_dict msg =
     (case msg of
        NotDict s \<Rightarrow> s
      | Dict d \<Rightarrow>
          let name = py_or (py_or (py_get d ''user_name'') (py_get d ''member_name''))
                           (py_get d ''name'');
              parts = (if py_truthy name then [''User: '' @ py_str name] else [])
                    @ labelled ''Timestamp'' d ''timestamp''
                    @ labelled ''Message'' d ''message''
                    @ labelled ''id'' d ''id''
                    @ labelled ''user_id'' d ''user_id''
                    @ labelled ''member_id'' d ''member_id''
          in if parts = [] then str_dict d else join '' | '' parts)"

definition build_documents ::
  "((string \<times> pyval) list \<Rightarrow> string) \<Rightarrow> raw_message list \<Rightarrow> string list" where
  "build_documents str_dict messages = map (build_document str_dict) messages"


section \<open>An example corpus\<close>

text \<open>The one-document corpus of the end-to-end examples, built with a stub index.\<close>

definition example_docs :: "string list" where
  "example_docs =
     [''User: Alice | Timestamp: 2024-01-01 | Message: I booked dinner at the new bistro downtown'']"

definition example_system :: "(unit, unit) qa_system" where
  "example_system = snd (build () (\<lambda>v docs. (v, Inr ())) example_docs init)"

text \<open>Two members, one message each.\<close>

definition two_member_docs :: "string list" where
  "two_member_docs =
     [''User: Alice | Timestamp: 2024-01-01 | Message: I booked dinner at the new bistro downtown'',
      ''User: Bob | Timestamp: 2024-01-02 | Message: I had dinner at home'']"

definition two_member_system :: "(unit, unit) qa_system" where
  "two_member_system = snd (build () (\<lambda>v docs. (v, Inr ())) two_member_docs init)"

text \<open>
  Stand-ins for the library: scores that are the same for every question, and a
  string for a dictionary (its keys), which no example reaches.
\<close>

definition fixed_scores :: "real list \<Rightarrow> 'v \<Rightarrow> 'm \<Rightarrow> string \<Rightarrow> error + real list" where
  "fixed_scores sc v m q = Inr sc"

definition dict_keys_str :: "(string \<times> pyval) list \<Rightarrow> string" where
  "dict_keys_str d = concat (map fst d)"

text \<open>The example corpus as objects in a store, the instance at address 4.\<close>

definition example_store :: "(unit, unit) store" where
  "example_store =
     \<lparr>cells = [0 \<mapsto> DocList example_docs, 1 \<mapsto> NameList [Some ''Alice''],
                2 \<mapsto> VectorizerObj (), 3 \<mapsto> MatrixObj (),
                4 \<mapsto> Instance 0 1 (Some 2) (Some 3)],
      next_addr = 5\<rparr>"

text \<open>A message about a vehicle.\<close>

definition truck_doc :: string where
  "truck_doc = ''User: Alice | Timestamp: 2024-02-03 | Message: my truck is old''"

definition truck_system :: "(unit, unit) qa_system" where
  "truck_system = snd (build () (\<lambda>v docs. (v, Inr ())) [truck_doc] init)"


section \<open>Auxiliary notions for the proofs\<close>

text \<open>
  Reading the dictionary of the token-based fallback with \<open>[]\<close> for a missing key, and
  the test under which the loop of the fallback records a position.
\<close>

definition dict_get :: "(string \<times> nat list) list \<Rightarrow> string \<Rightarrow> nat list" where
  "dict_get d k = (case map_of d k of None \<Rightarrow> [] | Some v \<Rightarrow> v)"

definition token_hit :: "string set \<Rightarrow> nat \<times> string option \<Rightarrow> bool" where
  "token_hit q_tokens p = (truthy (snd p) \<and> name_tokens (the (snd p)) \<inter> q_tokens \<noteq> {})"

text \<open>
  A value that flattening and parsing give back unchanged, and a part that the segment
  parser passes over.
\<close>

definition clean_value :: "string \<Rightarrow> bool" where
  "clean_value s =
     (s \<noteq> [] \<and> CHR ''|'' \<notin> set s \<and> \<not> is_space (hd s) \<and> \<not> is_space (last s))"

definition inert :: "string \<Rightarrow> bool" where
  "inert p = (\<not> startswith p ''User:'' \<and> \<not> startswith p ''Timestamp:''
              \<and> \<not> startswith p ''Message:'')"

text \<open>
  Stores that agree below a bound; the dictionary of the fallback read out of the store;
  and what holds of it while the loop runs: the lists of its keys are distinct cells
  allocated after it.
\<close>

definition keeps :: "nat \<Rightarrow> ('v, 'm) store \<Rightarrow> ('v, 'm) store \<Rightarrow> bool" where
  "keeps n s s' = (next_addr s \<le> next_addr s' \<and> (\<forall>a<n. cells s' a = cells s a))"

definition abs_dict :: "('v, 'm) store \<Rightarrow> nat \<Rightarrow> (string \<times> nat list) list" where
  "abs_dict s d = map (\<lambda>(k, a). (k, index_list s a)) (index_dict s d)"

definition dict_inv :: "nat \<Rightarrow> ('v, 'm) store \<Rightarrow> bool" where
  "dict_inv d s =
     (d < next_addr s \<and> distinct (map snd (index_dict s d))
      \<and> list_all (\<lambda>a. d < a \<and> a < next_addr s) (map snd (index_dict s d)))"


section \<open>Properties\<close>

subsection \<open>Trimming\<close>

lemma strip_Nil_iff: "strip s = [] \<longleftrightarrow> list_all is_space s"
proof -
  have "rstrip t = [] \<longleftrightarrow> list_all is_space t" for t
    by (simp add: rstrip_def dropWhile_eq_Nil_conv list_all_iff)
  moreover have "list_all is_space (dropWhile is_space s) \<longleftrightarrow> list_all is_space s"
    by (induction s) auto
  ultimately show ?thesis
    by (simp add: strip_def lstrip_def)
qed

lemma strip_blank: "list_all is_space s \<Longrightarrow> strip s = []"
  by (simp add: strip_Nil_iff)

lemma example_system_fields:
  "documents example_system = example_docs"
  "vectorizer example_system = Some ()"
  "doc_matrix example_system = Some ()"
  "user_names example_system = [Some ''Alice'']"
  by (code_simp)+

lemma two_member_system_fields:
  "documents two_member_system = two_member_docs"
  "vectorizer two_member_system = Some ()"
  "doc_matrix two_member_system = Some ()"
  "user_names two_member_system = [Some ''Alice'', Some ''Bob'']"
  by (code_simp)+


subsection \<open>The two immediate rejections\<close>

text \<open>
  Claim C5. Building from the empty document list leaves the initial attributes and
  raises nothing, and afterwards \<open>answer\<close> returns the fixed "no data" message for every
  question, the empty and the blank ones included: the test for a missing index comes
  before the question is trimmed and tested.
\<close>

theorem answer_after_empty_build:
  "build new_vectorizer fit_transform [] self0 = (None, init)
   \<and> answer linear_kernel (snd (build new_vectorizer fit_transform [] self0)) q
       = Inr msg_no_data"
  by (simp add: build_def init_def answer_def)

text \<open>
  Claim C6. When the corpus is not empty and the index is built, a question that is
  empty or made of whitespace only gets the fixed "empty question" message.
\<close>

theorem answer_blank_question:
  assumes "documents self \<noteq> []" and "vectorizer self \<noteq> None" and "doc_matrix self \<noteq> None"
    and "list_all is_space q"
  shows "answer linear_kernel self q = Inr msg_empty_question"
  using assms by (auto simp: answer_def strip_blank)

theorem answer_blank_question_witness:
  "answer (\<lambda>v m q. Inr [0.25]) example_system [CHR '' '', CHR 0x09, CHR 0xA0, CHR 0x85]
     = Inr msg_empty_question"
proof -
  have 1: "documents example_system \<noteq> []"
    by (simp add: example_system_fields example_docs_def)
  have 2: "vectorizer example_system \<noteq> None" and 3: "doc_matrix example_system \<noteq> None"
    by (simp_all add: example_system_fields)
  have 4: "list_all is_space [CHR '' '', CHR 0x09, CHR 0xA0, CHR 0x85]"
    by code_simp
  show ?thesis
    by (rule answer_blank_question [OF 1 2 3 4])
qed

subsection \<open>The threshold\<close>

text \<open>
  The two literals are float64 values (an integer below \<open>2 ^ 53\<close> times a power of
  two) within half a unit in the last place of 1/20 and of 3/20.
\<close>

lemma float_literals:
  "float_0_05 = 7205759403792794 / 2 ^ 57" "\<bar>float_0_05 - 1 / 20\<bar> < 1 / 2 ^ 58"
  "float_0_15 = 5404319552844595 / 2 ^ 55" "\<bar>float_0_15 - 3 / 20\<bar> < 1 / 2 ^ 56"
  by (simp_all add: float_0_05_def float_0_15_def)

text \<open>
  Claim C3. On a built corpus and a question that is not blank, the required minimum is
  the float64 \<^verbatim>\<open>0.05\<close> when the name restriction is confident and the float64
  \<^verbatim>\<open>0.15\<close> otherwise; a best score that is at most 0 or below the minimum gives the
  fixed "information not available" message, and otherwise the answer is made from the
  best document. A best score equal to the minimum passes the test, so a confident
  resolution with a best score of exactly \<^verbatim>\<open>0.05\<close> does.
\<close>

theorem threshold_test:
  assumes "documents self \<noteq> []" and "vectorizer self = Some v" and "doc_matrix self = Some m"
    and "strip question0 = q" and "q \<noteq> []"
    and "resolve_name (user_names self) (length (documents self)) q = (cands, confident)"
    and "linear_kernel v m q = Inr scores0"
    and "argmax (mask_scores cands (length (documents self)) scores0) = Some best_idx"
    and "best_score = mask_scores cands (length (documents self)) scores0 ! best_idx"
  shows "min_score confident = (if confident then float_0_05 else float_0_15)
    \<and> answer linear_kernel self question0 =
        (if best_score \<le> 0 \<or> best_score < min_score confident then Inr msg_not_available
         else if length (documents self) \<le> best_idx then Inl IndexError
         else Inr (answer_from_doc q (documents self ! best_idx)))
    \<and> (if best_score = min_score confident
       then \<not> (best_score \<le> 0 \<or> best_score < min_score confident) else True)"
  using assms by (simp add: answer_def min_score_def Let_def float_0_05_def float_0_15_def)

theorem threshold_test_witness:
  "answer (\<lambda>v m q. Inr [float_0_05]) example_system ''Where did Alice have dinner?''
     = Inr ''Member: Alice | Timestamp: 2024-01-01 | Message: I booked dinner at the new bistro downtown''
   \<and> answer (\<lambda>v m q. Inr [float_0_05 - 1 / 2 ^ 57]) example_system
        ''Where did Alice have dinner?''
     = Inr msg_not_available
   \<and> answer (\<lambda>v m q. Inr [float_0_15]) example_system ''Where was dinner booked?''
     = Inr ''Member: Alice | Timestamp: 2024-01-01 | Message: I booked dinner at the new bistro downtown''
   \<and> answer (\<lambda>v m q. Inr [float_0_05]) example_system ''Where was dinner booked?''
     = Inr msg_not_available"
proof -
  let ?q = "''Where did Alice have dinner?''" and ?r = "''Where was dinner booked?''"
  let ?a = "''Member: Alice | Timestamp: 2024-01-01 | Message: I booked dinner at the new bistro downtown''"
  have 1: "documents example_system \<noteq> []"
    by (simp add: example_system_fields example_docs_def)
  have 2: "vectorizer example_system = Some ()" and 3: "doc_matrix example_system = Some ()"
    by (simp_all add: example_system_fields)
  have 4: "strip ?q = ?q" and r4: "strip ?r = ?r" by code_simp+
  have 5: "?q \<noteq> []" and r5: "?r \<noteq> []" by simp_all
  have 6: "resolve_name (user_names example_system) (length (documents example_system)) ?q
             = ([0], True)"
    by code_simp
  have r6: "resolve_name (user_names example_system) (length (documents example_system)) ?r
             = ([0], False)"
    by code_simp
  have 8: "argmax (mask_scores [0] (length (documents example_system)) [x]) = Some 0" for x
    by (simp add: argmax_def mask_scores_def example_system_fields example_docs_def)
  have 9: "x = mask_scores [0] (length (documents example_system)) [x] ! 0" for x
    by (simp add: mask_scores_def example_system_fields example_docs_def)
  have d: "answer_from_doc ?q (documents example_system ! 0) = ?a"
    and rd: "answer_from_doc ?r (documents example_system ! 0) = ?a"
    by code_simp+
  have a: "answer (\<lambda>v m q. Inr [float_0_05]) example_system ?q = Inr ?a"
    using threshold_test [OF 1 2 3 4 5 6 _ 8 9, of "\<lambda>v m q. Inr [float_0_05]" float_0_05] 1 d
    by (simp add: min_score_def float_0_05_def)
  have b: "answer (\<lambda>v m q. Inr [float_0_05 - 1 / 2 ^ 57]) example_system ?q
      = Inr msg_not_available"
    using threshold_test [OF 1 2 3 4 5 6 _ 8 9, of "\<lambda>v m q. Inr [float_0_05 - 1 / 2 ^ 57]"
                            "float_0_05 - 1 / 2 ^ 57"]
    by (simp add: min_score_def float_0_05_def)
  have c: "answer (\<lambda>v m q. Inr [float_0_15]) example_system ?r = Inr ?a"
    using threshold_test [OF 1 2 3 r4 r5 r6 _ 8 9, of "\<lambda>v m q. Inr [float_0_15]" float_0_15] 1 rd
    by (simp add: min_score_def float_0_15_def)
  have e: "answer (\<lambda>v m q. Inr [float_0_05]) example_system ?r = Inr msg_not_available"
    using threshold_test [OF 1 2 3 r4 r5 r6 _ 8 9, of "\<lambda>v m q. Inr [float_0_05]" float_0_05]
    by (simp add: min_score_def float_0_05_def float_0_15_def)
  from a b c e show ?thesis by simp
qed

subsection \<open>Name resolution\<close>

lemma startswith_iff: "startswith s p \<longleftrightarrow> (\<exists>post. s = p @ post)"
proof
  assume "startswith s p"
  then have "s = p @ drop (length p) s"
    by (metis append_take_drop_id startswith_def)
  then show "\<exists>post. s = p @ post" ..
next
  assume "\<exists>post. s = p @ post"
  then show "startswith s p" by (auto simp: startswith_def)
qed

lemma contains_iff: "contains s sub \<longleftrightarrow> (\<exists>pre post. s = pre @ sub @ post)"
proof (induction s)
  case Nil
  then show ?case by (simp add: contains_def)
next
  case (Cons c cs)
  have "contains (c # cs) sub \<longleftrightarrow> startswith (c # cs) sub \<or> contains cs sub"
    by (auto simp: contains_def split: option.splits)
  also have "\<dots> \<longleftrightarrow> (\<exists>post. c # cs = sub @ post) \<or> (\<exists>pre post. cs = pre @ sub @ post)"
    by (simp add: startswith_iff Cons.IH)
  also have "\<dots> \<longleftrightarrow> (\<exists>pre post. c # cs = pre @ sub @ post)"
  proof
    assume "(\<exists>post. c # cs = sub @ post) \<or> (\<exists>pre post. cs = pre @ sub @ post)"
    then show "\<exists>pre post. c # cs = pre @ sub @ post"
    proof
      assume "\<exists>post. c # cs = sub @ post"
      then obtain post where "c # cs = [] @ sub @ post" by auto
      then show ?thesis by blast
    next
      assume "\<exists>pre post. cs = pre @ sub @ post"
      then obtain pre post where "c # cs = (c # pre) @ sub @ post" by auto
      then show ?thesis by blast
    qed
  next
    assume "\<exists>pre post. c # cs = pre @ sub @ post"
    then obtain pre post where eq: "c # cs = pre @ sub @ post" by blast
    show "(\<exists>post. c # cs = sub @ post) \<or> (\<exists>pre post. cs = pre @ sub @ post)"
    proof (cases pre)
      case Nil
      with eq show ?thesis by auto
    next
      case (Cons a pre')
      with eq have "cs = pre' @ sub @ post" by simp
      then show ?thesis by blast
    qed
  qed
  finally show ?case .
qed

lemma enumerate_0_conv: "enumerate 0 xs = map (\<lambda>i. (i, xs ! i)) [0..<length xs]"
  using enumerate_map_upt [of 0 "\<lambda>i. xs ! i" "length xs"] by (simp add: map_nth)

lemma map_fst_filter_enumerate:
  "map fst (filter P (enumerate 0 xs)) = filter (\<lambda>i. P (i, xs ! i)) [0..<length xs]"
  by (simp add: enumerate_0_conv filter_map comp_def)

lemma full_match_indices_eq:
  "full_match_indices names ql =
     filter (\<lambda>i. truthy (names ! i) \<and> contains ql (lower (the (names ! i)))) [0..<length names]"
  by (simp add: full_match_indices_def map_fst_filter_enumerate)

text \<open>
  Claim C2. If some position has a non-empty member name whose lower-case form occurs
  in the lower-case question (\<open>contains\<close>, which \<open>contains_iff\<close> shows to be the
  substring test), the resolver returns all such positions, in increasing order, with
  \<open>confident = True\<close>, be they of one member or of several; the tokens of the names are
  not looked at.
\<close>

theorem full_name_match:
  assumes "i < length names" and "truthy (names ! i)"
    and "contains (lower q) (lower (the (names ! i)))"
  shows "resolve_name names n_docs q =
           (filter (\<lambda>j. truthy (names ! j) \<and> contains (lower q) (lower (the (names ! j))))
                   [0..<length names], True)"
proof -
  have "i \<in> set (full_match_indices names (lower q))"
    using assms by (simp add: full_match_indices_eq)
  then have "full_match_indices names (lower q) \<noteq> []" by auto
  then show ?thesis
    by (simp add: resolve_name_def Let_def full_match_indices_eq)
qed


theorem full_name_match_witness:
  "resolve_name [Some ''Alice Smith'', Some ''Bob Smith'', Some ''Alice Smith''] 3
     ''What did Alice Smith tell Bob?'' = ([0, 2], True)
   \<and> resolve_name [Some ''Bob'', Some (''Zo'' @ [CHR 0xEB])] 2
       (''Did Bob meet ZO'' @ [CHR 0xCB] @ ''?'') = ([0, 1], True)"
proof -
  let ?names = "[Some ''Alice Smith'', Some ''Bob Smith'', Some ''Alice Smith'']"
  let ?q = "''What did Alice Smith tell Bob?''"
  let ?names2 = "[Some ''Bob'', Some (''Zo'' @ [CHR 0xEB])]"
  let ?q2 = "''Did Bob meet ZO'' @ [CHR 0xCB] @ ''?''"
  have 1: "0 < length ?names" by simp
  have 2: "truthy (?names ! 0)" by simp
  have 3: "contains (lower ?q) (lower (the (?names ! 0)))" by code_simp
  have 4: "filter (\<lambda>j. truthy (?names ! j) \<and> contains (lower ?q) (lower (the (?names ! j))))
          [0..<length ?names] = [0, 2]"
    by code_simp
  have 5: "1 < length ?names2" by simp
  have 6: "truthy (?names2 ! 1)" by simp
  have 7: "contains (lower ?q2) (lower (the (?names2 ! 1)))" by code_simp
  have 8: "filter (\<lambda>j. truthy (?names2 ! j) \<and> contains (lower ?q2) (lower (the (?names2 ! j))))
          [0..<length ?names2] = [0, 1]"
    by code_simp
  from full_name_match [OF 1 2 3, of 3] 4 have "resolve_name ?names 3 ?q = ([0, 2], True)"
    by simp
  moreover from full_name_match [OF 5 6 7, of 2] 8
  have "resolve_name ?names2 2 ?q2 = ([0, 1], True)"
    by simp
  ultimately show ?thesis by simp
qed

text \<open>The dictionary of the fallback: its keys, their number and its values.\<close>

lemma dict_get_setdefault_append:
  "dict_get (setdefault_append d k i) k' = (if k' = k then dict_get d k @ [i] else dict_get d k')"
  by (induction d k i rule: setdefault_append.induct) (auto simp: dict_get_def)

lemma dict_get_Nil: "dict_get [] k = []"
  by (simp add: dict_get_def)

lemma keys_setdefault_append:
  "fst ` set (setdefault_append d k i) = insert k (fst ` set d)"
  by (induction d k i rule: setdefault_append.induct) auto

lemma distinct_setdefault_append:
  "distinct (map fst d) \<Longrightarrow> distinct (map fst (setdefault_append d k i))"
  by (induction d k i rule: setdefault_append.induct)
     (auto simp: keys_setdefault_append)

lemma token_step_conv:
  "token_step qt p d = (if token_hit qt p then setdefault_append d (the (snd p)) (fst p) else d)"
  by (cases p) (simp add: token_step_def token_hit_def)

lemma dict_get_fold:
  "dict_get (fold (token_step qt) ps d) k =
     dict_get d k @ map fst (filter (\<lambda>p. token_hit qt p \<and> the (snd p) = k) ps)"
  by (induction ps arbitrary: d) (auto simp: token_step_conv dict_get_setdefault_append)

lemma keys_fold:
  "fst ` set (fold (token_step qt) ps d) =
     fst ` set d \<union> (\<lambda>p. the (snd p)) ` {p \<in> set ps. token_hit qt p}"
  by (induction ps arbitrary: d) (auto simp: token_step_conv keys_setdefault_append)

lemma distinct_fold:
  "distinct (map fst d) \<Longrightarrow> distinct (map fst (fold (token_step qt) ps d))"
  by (induction ps arbitrary: d) (auto simp: token_step_conv distinct_setdefault_append)

lemma case_single:
  "(case d of [] \<Rightarrow> y | [(a, b)] \<Rightarrow> x a b | (a, b) # _ # _ \<Rightarrow> y) =
     (if length d = 1 then x (fst (hd d)) (snd (hd d)) else y)"
  by (auto split: list.splits prod.splits)

lemma matches_keys:
  "fst ` set (matches_by_full_name names qt) =
     (\<lambda>i. the (names ! i)) ` set (filter (\<lambda>i. token_hit qt (i, names ! i)) [0..<length names])"
  by (auto simp: matches_by_full_name_def keys_fold enumerate_0_conv image_iff)

lemma matches_length:
  "length (matches_by_full_name names qt) =
     card ((\<lambda>i. the (names ! i)) ` set (filter (\<lambda>i. token_hit qt (i, names ! i)) [0..<length names]))"
proof -
  have "distinct (map fst (matches_by_full_name names qt))"
    by (simp add: matches_by_full_name_def distinct_fold)
  then have "card (set (map fst (matches_by_full_name names qt)))
      = length (map fst (matches_by_full_name names qt))"
    by (rule distinct_card)
  then show ?thesis by (simp add: matches_keys)
qed

lemma matches_single:
  assumes "matches_by_full_name names qt = [(k, v)]"
  shows "v = filter (\<lambda>i. token_hit qt (i, names ! i)) [0..<length names]"
proof -
  let ?d = "matches_by_full_name names qt"
  have keys: "(\<lambda>i. the (names ! i)) ` set (filter (\<lambda>i. token_hit qt (i, names ! i)) [0..<length names]) = {k}"
    using matches_keys [of names qt] assms by simp
  have "v = dict_get ?d k" using assms by (simp add: dict_get_def)
  also have "\<dots> = map fst (filter (\<lambda>p. token_hit qt p \<and> the (snd p) = k) (enumerate 0 names))"
    by (simp add: matches_by_full_name_def dict_get_fold dict_get_Nil)
  also have "\<dots> = filter (\<lambda>i. token_hit qt (i, names ! i) \<and> the (names ! i) = k) [0..<length names]"
    by (simp add: map_fst_filter_enumerate)
  also have "\<dots> = filter (\<lambda>i. token_hit qt (i, names ! i)) [0..<length names]"
    using keys by (intro filter_cong) auto
  finally show ?thesis .
qed

lemma resolve_name_cases:
  "resolve_name names n_docs q =
     (let full = filter (\<lambda>i. truthy (names ! i) \<and> contains (lower q) (lower (the (names ! i))))
                        [0..<length names];
          hits = filter (\<lambda>i. truthy (names ! i)
                                \<and> name_tokens (the (names ! i)) \<inter> tokenize q \<noteq> {})
                        [0..<length names]
      in if full \<noteq> [] then (full, True)
         else if card ((\<lambda>i. the (names ! i)) ` set hits) = 1 then (hits, True)
         else ([0..<n_docs], False))"
proof -
  let ?d = "matches_by_full_name names (tokenize q)"
  let ?hits = "filter (\<lambda>i. token_hit (tokenize q) (i, names ! i)) [0..<length names]"
  have res: "resolve_name names n_docs q =
      (if full_match_indices names (lower q) \<noteq> [] then (full_match_indices names (lower q), True)
       else if length ?d = 1 then (snd (hd ?d), True) else ([0..<n_docs], False))"
    by (simp add: resolve_name_def Let_def case_single)
  have len: "length ?d = card ((\<lambda>i. the (names ! i)) ` set ?hits)"
    by (rule matches_length)
  have "snd (hd ?d) = ?hits" if "length ?d = 1"
  proof -
    from that obtain k v where "?d = [(k, v)]"
      by (cases ?d) (auto simp: length_Suc_conv)
    then show ?thesis using matches_single [of names "tokenize q" k v] by simp
  qed
  with res len show ?thesis
    by (simp add: Let_def token_hit_def full_match_indices_eq)
qed

text \<open>
  Claim C1. When no full name occurs in the question, let the hits be the positions
  with a non-empty name one of whose tokens of length at least 3 is a token of the
  question. If the names at the hits are exactly one string, the resolver returns the
  hits with \<open>confident = True\<close>; if there is no hit, or the hits carry two or more
  different names, it returns all positions \<open>[0..<n_docs]\<close> with \<open>confident = False\<close>.
\<close>

theorem token_fallback:
  assumes "filter (\<lambda>i. truthy (names ! i) \<and> contains (lower q) (lower (the (names ! i))))
                  [0..<length names] = []"
  shows "resolve_name names n_docs q =
           (let hits = filter (\<lambda>i. truthy (names ! i)
                                    \<and> name_tokens (the (names ! i)) \<inter> tokenize q \<noteq> {})
                              [0..<length names]
            in if card ((\<lambda>i. the (names ! i)) ` set hits) = 1 then (hits, True)
               else ([0..<n_docs], False))"
  using assms by (simp add: resolve_name_cases Let_def)

theorem token_fallback_witness:
  "resolve_name [Some ''Sam Smith'', Some ''Sam Jones'', Some ''Sam Smith''] 3
     ''What does Sam like?'' = ([0, 1, 2], False)
   \<and> resolve_name [Some ''Sam Smith'', Some ''Bob Jones'', Some ''Sam Smith''] 3
     ''What does Sam like?'' = ([0, 2], True)
   \<and> resolve_name [Some (''Zo'' @ [CHR 0xEB] @ '' Kim''), Some (''Zo'' @ [CHR 0xEB] @ '' Lee'')] 2
     (''Did Kim or Zo'' @ [CHR 0xEB] @ '' go?'') = ([0, 1], False)"
proof -
  let ?q = "''What does Sam like?''"
  let ?a = "[Some ''Sam Smith'', Some ''Sam Jones'', Some ''Sam Smith'']"
  let ?b = "[Some ''Sam Smith'', Some ''Bob Jones'', Some ''Sam Smith'']"
  let ?c = "[Some (''Zo'' @ [CHR 0xEB] @ '' Kim''), Some (''Zo'' @ [CHR 0xEB] @ '' Lee'')]"
  let ?r = "''Did Kim or Zo'' @ [CHR 0xEB] @ '' go?''"
  have a: "filter (\<lambda>i. truthy (?a ! i) \<and> contains (lower ?q) (lower (the (?a ! i))))
             [0..<length ?a] = []"
    by code_simp
  have b: "filter (\<lambda>i. truthy (?b ! i) \<and> contains (lower ?q) (lower (the (?b ! i))))
             [0..<length ?b] = []"
    by code_simp
  have c: "filter (\<lambda>i. truthy (?c ! i) \<and> contains (lower ?r) (lower (the (?c ! i))))
             [0..<length ?c] = []"
    by code_simp
  have "resolve_name ?a 3 ?q = ([0, 1, 2], False)"
    by (subst token_fallback [OF a]) code_simp
  moreover have "resolve_name ?b 3 ?q = ([0, 2], True)"
    by (subst token_fallback [OF b]) code_simp
  moreover have "resolve_name ?c 2 ?r = ([0, 1], False)"
    by (subst token_fallback [OF c]) code_simp
  ultimately show ?thesis by simp
qed

subsection \<open>The candidate set and the scores\<close>

lemma resolve_name_candidates:
  assumes "resolve_name names n_docs q = (cands, confident)"
    and "length names = n_docs" and "0 < n_docs"
  shows "cands \<noteq> [] \<and> distinct cands \<and> set cands \<subseteq> {0..<n_docs}"
proof -
  let ?full = "filter (\<lambda>i. truthy (names ! i) \<and> contains (lower q) (lower (the (names ! i))))
                      [0..<length names]"
  let ?hits = "filter (\<lambda>i. truthy (names ! i)
                              \<and> name_tokens (the (names ! i)) \<inter> tokenize q \<noteq> {})
                      [0..<length names]"
  consider (full) "?full \<noteq> []" "cands = ?full"
    | (one) "card ((\<lambda>i. the (names ! i)) ` set ?hits) = 1" "cands = ?hits"
    | (all) "cands = [0..<n_docs]"
    using assms(1) unfolding resolve_name_cases Let_def by (auto split: if_splits)
  then show ?thesis
  proof cases
    case full
    then show ?thesis using assms(2) by auto
  next
    case one
    have "?hits \<noteq> []"
    proof
      assume "?hits = []"
      then have "card ((\<lambda>i. the (names ! i)) ` set ?hits) = 0" by simp
      with one(1) show False by simp
    qed
    moreover have "distinct ?hits" by simp
    moreover have "set ?hits \<subseteq> {0..<n_docs}" using assms(2) by auto
    ultimately show ?thesis using one(2) by simp
  next
    case all
    then show ?thesis using assms(3) by auto
  qed
qed

lemma zero_outside_fold:
  "n \<le> length sc \<Longrightarrow>
     length (fold (\<lambda>i sc. if i \<notin> set allowed then sc[i := 0] else sc) [0..<n] sc) = length sc
   \<and> (\<forall>i<length sc.
        fold (\<lambda>i sc. if i \<notin> set allowed then sc[i := 0] else sc) [0..<n] sc ! i
          = (if i < n \<and> i \<notin> set allowed then 0 else sc ! i))"
  by (induction n) (auto simp: nth_list_update less_Suc_eq)

lemma length_zero_outside: "length (zero_outside allowed sc) = length sc"
  using zero_outside_fold [of "length sc" sc allowed] by (simp add: zero_outside_def)

lemma nth_zero_outside:
  "i < length sc \<Longrightarrow> zero_outside allowed sc ! i = (if i \<in> set allowed then sc ! i else 0)"
  using zero_outside_fold [of "length sc" sc allowed] by (simp add: zero_outside_def)

lemma argmax_loop_bound:
  "best_i < i \<Longrightarrow> argmax_loop best_i best_v i xs < i + length xs"
proof (induction xs arbitrary: best_i best_v i)
  case Nil
  then show ?case by simp
next
  case (Cons a xs)
  have "argmax_loop i a (Suc i) xs < Suc i + length xs"
    by (rule Cons.IH) simp
  moreover have "argmax_loop best_i best_v (Suc i) xs < Suc i + length xs"
    using Cons.prems by (intro Cons.IH) simp
  ultimately show ?case by simp
qed

lemma argmax_Some: "argmax xs = Some k \<Longrightarrow> k < length xs"
  using argmax_loop_bound [of 0 1] by (auto simp: argmax_def split: list.splits)

lemma argmax_None: "argmax xs = None \<longleftrightarrow> xs = []"
  by (simp add: argmax_def split: list.splits)

lemma covering_candidates:
  assumes "distinct cands" and "set cands \<subseteq> {0..<n}" and "\<not> length cands < n"
  shows "set cands = {0..<n}"
proof -
  have "card (set cands) = length cands" using assms(1) by (rule distinct_card)
  moreover have "card (set cands) \<le> card {0..<n}" using assms(2) by (intro card_mono) auto
  ultimately have "card (set cands) = card {0..<n}" using assms(3) by simp
  with assms(2) show ?thesis by (intro card_subset_eq) auto
qed

lemma mask_scores_conv:
  assumes "cands \<noteq> []" and "distinct cands" and "set cands \<subseteq> {0..<n}"
    and "length sc = n"
  shows "mask_scores cands n sc = zero_outside cands sc"
proof (cases "length cands < n")
  case True
  with assms(1) show ?thesis by (simp add: mask_scores_def)
next
  case False
  with assms have "set cands = {0..<n}" by (intro covering_candidates)
  then have "zero_outside cands sc = sc"
    using assms(4) by (intro nth_equalityI) (auto simp: length_zero_outside nth_zero_outside)
  with False show ?thesis by (simp add: mask_scores_def)
qed


text \<open>
  Claim C9. On a built, non-empty corpus whose names and scores are aligned with the
  documents, the scores from which the maximum is taken are those of the index with
  every position outside the candidate set set to zero: the test that skips the loop
  when the candidates cover the corpus changes nothing. The maximum exists, and when
  \<open>answer\<close> returns anything but the "information not available" message, it is the
  answer made from the document at the position of the maximum, which is a candidate.
\<close>

theorem candidate_set_invariant:
  assumes "documents self \<noteq> []" and "length (user_names self) = length (documents self)"
    and "vectorizer self = Some v" and "doc_matrix self = Some m"
    and "strip question0 = q" and "q \<noteq> []"
    and "resolve_name (user_names self) (length (documents self)) q = (cands, confident)"
    and "linear_kernel v m q = Inr scores0"
    and "length scores0 = length (documents self)"
    and "scores = mask_scores cands (length (documents self)) scores0"
  shows "scores = zero_outside cands scores0
    \<and> (\<forall>i<length (documents self). i \<notin> set cands \<longrightarrow> scores ! i = 0)
    \<and> (\<exists>best_idx<length (documents self). argmax scores = Some best_idx
         \<and> (answer linear_kernel self question0 \<noteq> Inr msg_not_available
              \<longrightarrow> best_idx \<in> set cands
                \<and> answer linear_kernel self question0
                     = Inr (answer_from_doc q (documents self ! best_idx))))"
proof -
  let ?n = "length (documents self)"
  from assms(1) have n: "0 < ?n" by simp
  from resolve_name_candidates [OF assms(7) assms(2) n]
  have c: "cands \<noteq> []" "distinct cands" "set cands \<subseteq> {0..<?n}" by simp_all
  have eq: "scores = zero_outside cands scores0"
    using mask_scores_conv [OF c assms(9)] assms(10) by simp
  have len: "length scores = ?n"
    by (simp add: eq length_zero_outside assms(9))
  have zero: "scores ! i = 0" if "i < ?n" "i \<notin> set cands" for i
    using that by (simp add: eq nth_zero_outside assms(9))
  from len n obtain best_idx where b: "argmax scores = Some best_idx"
    by (cases "argmax scores") (auto simp: argmax_None)
  then have bl: "best_idx < ?n" using argmax_Some [of scores best_idx] len by simp
  have ans: "answer linear_kernel self question0 =
      (if scores ! best_idx \<le> 0 \<or> scores ! best_idx < min_score confident
       then Inr msg_not_available
       else Inr (answer_from_doc q (documents self ! best_idx)))"
  proof -
    have m: "mask_scores cands (length (documents self)) scores0 = scores"
      using assms(10) by simp
    show ?thesis
      unfolding answer_def Let_def
      using assms(1,3,4,5,6,7,8) b bl by (simp add: m)
  qed
  have "best_idx \<in> set cands" if "answer linear_kernel self question0 \<noteq> Inr msg_not_available"
  proof (rule ccontr)
    assume "best_idx \<notin> set cands"
    with zero bl have "scores ! best_idx = 0" by simp
    with ans that show False by simp
  qed
  then have 3: "answer linear_kernel self question0 \<noteq> Inr msg_not_available
              \<longrightarrow> best_idx \<in> set cands
                \<and> answer linear_kernel self question0
                     = Inr (answer_from_doc q (documents self ! best_idx))"
    using ans by (simp split: if_splits)
  have 2: "\<forall>i<length (documents self). i \<notin> set cands \<longrightarrow> scores ! i = 0"
    using zero by blast
  from b bl 3 have "\<exists>best_idx<length (documents self). argmax scores = Some best_idx
         \<and> (answer linear_kernel self question0 \<noteq> Inr msg_not_available
              \<longrightarrow> best_idx \<in> set cands
                \<and> answer linear_kernel self question0
                     = Inr (answer_from_doc q (documents self ! best_idx)))"
    by blast
  with eq 2 show ?thesis by blast
qed


theorem candidate_set_invariant_witness:
  "mask_scores [0] 2 [0.2, 0.9] ! 1 = 0
   \<and> answer (\<lambda>v m q. Inr [0.2, 0.9]) two_member_system ''Where did Alice have dinner?''
       = Inr ''Member: Alice | Timestamp: 2024-01-01 | Message: I booked dinner at the new bistro downtown''"
proof -
  let ?q = "''Where did Alice have dinner?''"
  let ?lk = "\<lambda>(v::unit) (m::unit) (q::string). (Inr [0.2, 0.9] :: error + real list)"
  have n: "length (documents two_member_system) = 2"
    by (simp add: two_member_system_fields two_member_docs_def)
  have 1: "documents two_member_system \<noteq> []"
    by (simp add: two_member_system_fields two_member_docs_def)
  have 2: "length (user_names two_member_system) = length (documents two_member_system)"
    by (simp add: two_member_system_fields two_member_docs_def)
  have 3: "vectorizer two_member_system = Some ()" and 4: "doc_matrix two_member_system = Some ()"
    by (simp_all add: two_member_system_fields)
  have 5: "strip ?q = ?q" by code_simp
  have 6: "?q \<noteq> []" by simp
  have 7: "resolve_name (user_names two_member_system) (length (documents two_member_system)) ?q
             = ([0], True)"
    by code_simp
  have 8: "?lk () () ?q = Inr [0.2, 0.9]" by simp
  have 9: "length [0.2, 0.9 :: real] = length (documents two_member_system)"
    by (simp add: n)
  note inv = candidate_set_invariant [OF 1 2 3 4 5 6 7 8 9 refl]
  from inv have "\<forall>i<length (documents two_member_system). i \<notin> set [0] \<longrightarrow>
      mask_scores [0] (length (documents two_member_system)) [0.2, 0.9] ! i = 0"
    by (rule conjunct1 [OF conjunct2])
  from this [rule_format, of 1] have "mask_scores [0] 2 [0.2, 0.9] ! 1 = 0"
    by (simp add: n)
  moreover have "argmax (mask_scores [0] 2 [0.2, 0.9]) = Some 0"
    by (simp add: mask_scores_def zero_outside_def argmax_def upt_rec)
  moreover have "answer ?lk two_member_system ?q \<noteq> Inr msg_not_available"
    by code_simp
  moreover have "answer_from_doc ?q (documents two_member_system ! 0)
      = ''Member: Alice | Timestamp: 2024-01-01 | Message: I booked dinner at the new bistro downtown''"
    by code_simp
  moreover from inv have "\<exists>best_idx<length (documents two_member_system).
       argmax (mask_scores [0] (length (documents two_member_system)) [0.2, 0.9]) = Some best_idx
       \<and> (answer ?lk two_member_system ?q \<noteq> Inr msg_not_available
            \<longrightarrow> best_idx \<in> set [0]
              \<and> answer ?lk two_member_system ?q
                   = Inr (answer_from_doc ?q (documents two_member_system ! best_idx)))"
    by (rule conjunct2 [OF conjunct2])
  ultimately show ?thesis by (auto simp: n)
qed

subsection \<open>The topic filter\<close>

text \<open>
  Claim C4, as stated, fails: the question below shares with the best document only
  the member's name, and is answered, because "car" and "truck" are in one synonym
  group.
\<close>

theorem topic_filter_counterexample:
  "parse_doc_fields truck_doc = (Some ''Alice'', Some ''2024-02-03'', Some ''my truck is old'')
   \<and> tokenize ''What car does Alice drive?'' \<inter> tokenize truck_doc = {''alice''}
   \<and> set (findall_words (lower ''Alice'')) = {''alice''}
   \<and> topic_overlap_ok ''What car does Alice drive?'' truck_doc (Some ''Alice'')
   \<and> answer (fixed_scores [0.25]) truck_system ''What car does Alice drive?''
       = Inr ''Member: Alice | Timestamp: 2024-02-03 | Message: my truck is old''"
  by code_simp

text \<open>
  Claim C4, amended. With the name parsed from the document, the filter takes the
  name's word tokens out of both token sets and accepts exactly when the reduced sets
  meet or both meet one synonym group. When question and document share no token but
  those of the name, the reduced sets do not meet, and the pipeline returns the
  "information not available" message unless both reduced sets meet one synonym group.
\<close>

theorem topic_filter:
  assumes "parse_doc_fields doc = (Some name, timestamp, message)"
    and "name_parts = set (findall_words (lower name))"
    and "q_tokens = tokenize question - name_parts"
    and "a_tokens = tokenize doc - name_parts"
  shows "(topic_overlap_ok question doc (Some name) \<longleftrightarrow>
            q_tokens \<inter> a_tokens \<noteq> {}
            \<or> (\<exists>g \<in> set topic_groups. q_tokens \<inter> g \<noteq> {} \<and> a_tokens \<inter> g \<noteq> {}))
       \<and> (tokenize question \<inter> tokenize doc \<subseteq> name_parts \<longrightarrow> q_tokens \<inter> a_tokens = {})
       \<and> (tokenize question \<inter> tokenize doc \<subseteq> name_parts
            \<and> \<not> (\<exists>g \<in> set topic_groups. q_tokens \<inter> g \<noteq> {} \<and> a_tokens \<inter> g \<noteq> {})
            \<longrightarrow> answer_from_doc question doc = msg_not_available)"
proof -
  have np: "(if truthy (Some name) then findall_words (lower (the (Some name))) else [])
              = findall_words (lower name)"
    by (cases name) (simp_all add: findall_words_def lower_def)
  have ok: "topic_overlap_ok question doc (Some name) \<longleftrightarrow>
            q_tokens \<inter> a_tokens \<noteq> {}
            \<or> (\<exists>g \<in> set topic_groups. q_tokens \<inter> g \<noteq> {} \<and> a_tokens \<inter> g \<noteq> {})"
    unfolding topic_overlap_ok_def Let_def np assms(2,3,4) by (simp add: list_ex_iff)
  have direct: "q_tokens \<inter> a_tokens = {}" if "tokenize question \<inter> tokenize doc \<subseteq> name_parts"
    using that unfolding assms(3,4) by blast
  have "answer_from_doc question doc = msg_not_available"
    if "\<not> topic_overlap_ok question doc (Some name)"
    using that assms(1) by (simp add: answer_from_doc_def)
  with ok direct show ?thesis by blast
qed

theorem topic_filter_witness:
  "answer_from_doc ''What car does Alice drive?'' (hd example_docs) = msg_not_available"
proof -
  let ?q = "''What car does Alice drive?''"
  let ?np = "set (findall_words (lower ''Alice''))"
  have 1: "parse_doc_fields (hd example_docs)
      = (Some ''Alice'', Some ''2024-01-01'', Some ''I booked dinner at the new bistro downtown'')"
    by code_simp
  have 2: "tokenize ?q \<inter> tokenize (hd example_docs) \<subseteq> ?np"
    by code_simp
  have 3: "\<not> (\<exists>g \<in> set topic_groups. (tokenize ?q - ?np) \<inter> g \<noteq> {}
                \<and> (tokenize (hd example_docs) - ?np) \<inter> g \<noteq> {})"
    by code_simp
  from topic_filter [OF 1 refl refl refl, of ?q] 2 3 show ?thesis by blast
qed


subsection \<open>The member name read at build time\<close>

lemma contains_Cons: "contains (c # cs) sub \<longleftrightarrow> startswith (c # cs) sub \<or> contains cs sub"
  by (auto simp: contains_def split: option.splits)

lemma find_str_None: "find_str s sep = None \<longleftrightarrow> \<not> contains s sep"
  by (simp add: contains_def)

lemma find_str_space_pipe:
  "\<not> contains seg '' |'' \<Longrightarrow> find_str (seg @ '' |'' @ tail) '' |'' = Some (length seg)"
proof (induction seg)
  case Nil
  then show ?case by (simp add: startswith_def)
next
  case (Cons c cs)
  from Cons.prems have ns: "\<not> startswith (c # cs) '' |''" and nc: "\<not> contains cs '' |''"
    by (simp_all add: contains_Cons)
  have "\<not> startswith (c # cs @ '' |'' @ tail) '' |''"
    using ns by (cases cs) (auto simp: startswith_def)
  with Cons.IH [OF nc] show ?case by simp
qed

lemma lstrip_idem: "lstrip (lstrip s) = lstrip s"
  by (simp add: lstrip_def dropWhile_idem)

lemma strip_lstrip: "strip (lstrip s) = strip s"
  by (simp add: strip_def lstrip_idem)

text \<open>
  Claim C8, as stated, fails: a \<^verbatim>\<open>User:\<close> segment that is not at the start of the
  document is not read at build time, though the segment parser finds it. Where the
  segment is read, its text is trimmed, and an empty text gives \<open>None\<close> though the
  segment is there.
\<close>

theorem extract_user_name_counterexample:
  "extract_user_name ''Timestamp: 2024-01-01 | User: Bob'' = None
   \<and> parse_doc_fields ''Timestamp: 2024-01-01 | User: Bob'' = (Some ''Bob'', Some ''2024-01-01'', None)
   \<and> extract_user_name ''User:  Alice  | Timestamp: 2024-01-01'' = Some ''Alice''
   \<and> extract_user_name ''User: '' = None"
  by code_simp

lemma no_bar_no_delimiter: "CHR ''|'' \<notin> set s \<Longrightarrow> \<not> contains s '' |''"
  by (auto simp: contains_iff)

text \<open>
  Claim C8, amended. The name read at build time comes from a \<^verbatim>\<open>User:\<close> segment at the
  start of the document only: it is \<open>None\<close> when the document does not begin with
  \<^verbatim>\<open>User:\<close>. When it does, and the text of the segment is not blank and ends at a
  \<^verbatim>\<open>" |"\<close> delimiter, the name is that text without the whitespace around it; when
  the segment runs to the end of the string, the name is its text without the
  whitespace around it, and \<open>None\<close> when that is empty.
\<close>

theorem extract_user_name_leading:
  "(\<not> startswith doc ''User:'' \<longrightarrow> extract_user_name doc = None)
   \<and> (CHR ''|'' \<notin> set seg \<and> strip seg \<noteq> [] \<longrightarrow>
        extract_user_name (''User:'' @ seg @ '' |'' @ tail) = Some (strip seg))
   \<and> (CHR ''|'' \<notin> set body \<longrightarrow>
        extract_user_name (''User:'' @ body)
          = (if strip body = [] then None else Some (strip body)))"
proof -
  have sw: "startswith (''User:'' @ b) ''User:''" for b
    by (simp add: startswith_def)
  have 1: "extract_user_name doc = None" if "\<not> startswith doc ''User:''"
    using that by (simp add: extract_user_name_def)
  have 2: "extract_user_name (''User:'' @ seg @ '' |'' @ tail) = Some (strip seg)"
    if bar: "CHR ''|'' \<notin> set seg" and ne: "strip seg \<noteq> []"
  proof -
    from ne have "\<not> list_all is_space seg" by (simp add: strip_Nil_iff)
    then obtain x where "x \<in> set seg" "\<not> is_space x" by (auto simp: list_all_iff)
    then have rest: "lstrip (seg @ '' |'' @ tail) = lstrip seg @ '' |'' @ tail"
      by (simp add: lstrip_def dropWhile_append1)
    have "CHR ''|'' \<notin> set (lstrip seg)"
      using bar by (auto simp: lstrip_def dest: set_dropWhileD)
    then have "\<not> contains (lstrip seg) '' |''" by (rule no_bar_no_delimiter)
    then have "find_str (lstrip seg @ '' |'' @ tail) '' |'' = Some (length (lstrip seg))"
      by (rule find_str_space_pipe)
    then show ?thesis
      using sw [of "seg @ '' |'' @ tail"] rest ne
      by (simp add: extract_user_name_def Let_def or_none_def strip_lstrip)
  qed
  have 3: "extract_user_name (''User:'' @ body) = (if strip body = [] then None else Some (strip body))"
    if bar: "CHR ''|'' \<notin> set body"
  proof -
    have "CHR ''|'' \<notin> set (lstrip body)"
      using bar by (auto simp: lstrip_def dest: set_dropWhileD)
    then have "find_str (lstrip body) '' |'' = None"
      by (simp add: find_str_None no_bar_no_delimiter)
    then show ?thesis
      using sw [of body] by (simp add: extract_user_name_def Let_def or_none_def strip_lstrip)
  qed
  from 1 2 3 show ?thesis by blast
qed

theorem extract_user_name_leading_witness:
  "extract_user_name ''Message: hi | User: Bob'' = None
   \<and> extract_user_name ''User:  Alice Smith  | Timestamp: 2024-01-01'' = Some ''Alice Smith''
   \<and> extract_user_name ''User: Carol '' = Some ''Carol''"
proof -
  have a: "\<not> startswith ''Message: hi | User: Bob'' ''User:''" by code_simp
  have b: "CHR ''|'' \<notin> set ''  Alice Smith '' \<and> strip ''  Alice Smith '' \<noteq> []"
    by code_simp
  have c: "CHR ''|'' \<notin> set '' Carol ''" by simp
  have sb: "strip ''  Alice Smith '' = ''Alice Smith''" and sc: "strip '' Carol '' = ''Carol''"
    by code_simp+
  from extract_user_name_leading
         [of "''Message: hi | User: Bob''" "''  Alice Smith ''" "'' Timestamp: 2024-01-01''"] a b
  have "extract_user_name ''Message: hi | User: Bob'' = None"
    and "extract_user_name (''User:'' @ ''  Alice Smith '' @ '' |'' @ '' Timestamp: 2024-01-01'')
           = Some ''Alice Smith''"
    by (simp_all add: sb)
  moreover from extract_user_name_leading [of "''x''" "[]" "[]" "'' Carol ''"] c
  have "extract_user_name (''User:'' @ '' Carol '') = Some ''Carol''"
    by (simp add: sc)
  ultimately show ?thesis by simp
qed

subsection \<open>Flattening and parsing back\<close>

lemma label_chars:
  "is_space CHR '' ''"
  "\<not> is_space CHR ''U''" "\<not> is_space CHR ''T''" "\<not> is_space CHR ''M''"
  "\<not> is_space CHR ''i''" "\<not> is_space CHR ''u''" "\<not> is_space CHR ''m''"
  by (simp_all add: is_space_def in_ranges_def ord_def)

lemma lstrip_keep: "s \<noteq> [] \<Longrightarrow> \<not> is_space (hd s) \<Longrightarrow> lstrip s = s"
  by (cases s) (simp_all add: lstrip_def)

lemma rstrip_keep: "s \<noteq> [] \<Longrightarrow> \<not> is_space (last s) \<Longrightarrow> rstrip s = s"
proof -
  assume "s \<noteq> []" "\<not> is_space (last s)"
  then have "rev s \<noteq> []" "\<not> is_space (hd (rev s))" by (simp_all add: hd_rev)
  then have "dropWhile is_space (rev s) = rev s" by (cases "rev s") simp_all
  then show ?thesis by (simp add: rstrip_def)
qed

lemma strip_keep: "s \<noteq> [] \<Longrightarrow> \<not> is_space (hd s) \<Longrightarrow> \<not> is_space (last s) \<Longrightarrow> strip s = s"
  by (simp add: strip_def lstrip_keep rstrip_keep)

lemma lstrip_blank_append: "list_all is_space a \<Longrightarrow> lstrip (a @ s) = lstrip s"
  by (simp add: lstrip_def list_all_iff dropWhile_append2)

lemma rstrip_append_blank: "list_all is_space b \<Longrightarrow> rstrip (s @ b) = rstrip s"
  using dropWhile_append2 [of "rev b" is_space "rev s"]
  by (simp add: rstrip_def list_all_iff)

lemma strip_append_blank:
  assumes "list_all is_space b"
  shows "strip (s @ b) = strip s"
proof (cases "list_all is_space s")
  case True
  with assms have "list_all is_space (s @ b)" by simp
  with True show ?thesis by (simp add: strip_blank)
next
  case False
  then obtain x where "x \<in> set s" "\<not> is_space x" by (auto simp: list_all_iff)
  then have "lstrip (s @ b) = lstrip s @ b"
    by (simp add: lstrip_def dropWhile_append1)
  with assms show ?thesis by (simp add: strip_def rstrip_append_blank)
qed

lemma strip_pad:
  "list_all is_space a \<Longrightarrow> list_all is_space b \<Longrightarrow> strip (a @ s @ b) = strip s"
proof -
  assume a: "list_all is_space a" and b: "list_all is_space b"
  have "strip (a @ s @ b) = strip (lstrip (a @ s @ b))" by (simp add: strip_lstrip)
  also have "\<dots> = strip (lstrip (s @ b))" using a by (simp add: lstrip_blank_append)
  also have "\<dots> = strip (s @ b)" by (simp add: strip_lstrip)
  also have "\<dots> = strip s" using b by (rule strip_append_blank)
  finally show ?thesis .
qed

lemma hd_strip:
  assumes "p \<noteq> []" and "\<not> is_space (hd p)"
  shows "strip p \<noteq> [] \<and> hd (strip p) = hd p"
proof -
  from assms obtain c cs where p: "p = c # cs" and c: "\<not> is_space c" by (cases p) auto
  have "dropWhile is_space (rev cs @ [c]) = dropWhile is_space (rev cs) @ [c]"
    using c by (simp add: dropWhile_append3)
  then have "strip p = c # rev (dropWhile is_space (rev cs))"
    using c by (simp add: p strip_def lstrip_def rstrip_def)
  then show ?thesis by (simp add: p)
qed

lemma split_char_none: "c \<notin> set a \<Longrightarrow> split_char c a = [a]"
  by (induction a) auto

lemma split_char_append: "c \<notin> set a \<Longrightarrow> split_char c (a @ c # b) = a # split_char c b"
  by (induction a) auto

lemma split_char_join:
  assumes "\<forall>p \<in> set (p0 # ps). CHR ''|'' \<notin> set p"
    and "CHR ''|'' \<notin> set pre" and "list_all is_space pre"
  shows "map strip (split_char CHR ''|'' (pre @ join '' | '' (p0 # ps))) = map strip (p0 # ps)"
  using assms
proof (induction ps arbitrary: p0 pre)
  case Nil
  then have "split_char CHR ''|'' (pre @ p0) = [pre @ p0]"
    by (intro split_char_none) simp
  moreover have "strip (pre @ p0) = strip p0"
    using strip_pad [of pre "[]" p0] Nil.prems(3) by simp
  ultimately show ?case by simp
next
  case (Cons q qs)
  have sp: "list_all is_space '' ''" by (simp add: label_chars)
  have e: "pre @ join '' | '' (p0 # q # qs)
          = (pre @ p0 @ '' '') @ CHR ''|'' # ('' '' @ join '' | '' (q # qs))"
    by simp
  have n: "CHR ''|'' \<notin> set (pre @ p0 @ '' '')"
    using Cons.prems by simp
  have "split_char CHR ''|'' (pre @ join '' | '' (p0 # q # qs))
      = (pre @ p0 @ '' '') # split_char CHR ''|'' ('' '' @ join '' | '' (q # qs))"
    unfolding e by (rule split_char_append [OF n])
  moreover have "strip (pre @ p0 @ '' '') = strip p0"
    using Cons.prems(3) sp by (rule strip_pad)
  moreover have "map strip (split_char CHR ''|'' ('' '' @ join '' | '' (q # qs)))
      = map strip (q # qs)"
    using Cons.prems(1) sp by (intro Cons.IH) simp_all
  ultimately show ?case by simp
qed

lemma fold_parse_part_inert:
  "\<forall>p \<in> set ps. inert p \<Longrightarrow> fold parse_part ps acc = acc"
  by (induction ps arbitrary: acc) (auto simp: parse_part_def inert_def)

lemma startswith_hd: "startswith p (c # cs) \<Longrightarrow> p \<noteq> [] \<and> hd p = c"
  by (cases p) (auto simp: startswith_def)

lemma inert_by_hd:
  "p \<noteq> [] \<Longrightarrow> hd p \<notin> {CHR ''U'', CHR ''T'', CHR ''M''} \<Longrightarrow> \<not> is_space (hd p)
     \<Longrightarrow> inert (strip p)"
  using hd_strip [of p] by (auto simp: inert_def dest!: startswith_hd)

lemma labelled_inert:
  assumes "hd label \<notin> {CHR ''U'', CHR ''T'', CHR ''M''}" and "label \<noteq> []"
    and "\<not> is_space (hd label)"
  shows "\<forall>p \<in> set (map strip (labelled label d k)). inert p"
proof -
  have "inert (strip (label @ '': '' @ s))" for s
    using assms by (intro inert_by_hd) simp_all
  then show ?thesis by (auto simp: labelled_def split: option.splits)
qed

lemma labelled_pipe_free:
  assumes "CHR ''|'' \<notin> set label" and "CHR ''|'' \<notin> set (py_str (py_get d k))"
  shows "\<forall>p \<in> set (labelled label d k). CHR ''|'' \<notin> set p"
  using assms by (auto simp: labelled_def py_get_def split: option.splits)

lemma parse_labelled_values:
  assumes "clean_value n" and "clean_value t" and "clean_value m"
  shows "fold parse_part (map strip [''User: '' @ n, ''Timestamp: '' @ t, ''Message: '' @ m])
           (None, None, None) = (Some n, Some t, Some m)"
proof -
  have keep: "strip (l @ v) = l @ v" if "clean_value v" "l \<noteq> []" "\<not> is_space (hd l)" for l v
    using that by (intro strip_keep) (simp_all add: clean_value_def)
  have val: "strip ('' '' @ v) = v" if "clean_value v" for v
  proof -
    have "strip ('' '' @ v @ []) = strip v"
      by (rule strip_pad) (simp_all add: label_chars)
    moreover have "strip v = v"
      using that by (intro strip_keep) (simp_all add: clean_value_def)
    ultimately show ?thesis by simp
  qed
  have u: "strip (''User: '' @ n) = ''User: '' @ n"
    using assms(1) by (intro keep) (simp_all add: label_chars)
  have ts: "strip (''Timestamp: '' @ t) = ''Timestamp: '' @ t"
    using assms(2) by (intro keep) (simp_all add: label_chars)
  have ms: "strip (''Message: '' @ m) = ''Message: '' @ m"
    using assms(3) by (intro keep) (simp_all add: label_chars)
  have 1: "parse_part (''User: '' @ n) acc = (Some n, snd acc)" for acc
    using val [OF assms(1)] by (cases acc) (simp add: parse_part_def startswith_def)
  have 2: "parse_part (''Timestamp: '' @ t) acc = (fst acc, Some t, snd (snd acc))" for acc
    using val [OF assms(2)] by (cases acc) (simp add: parse_part_def startswith_def)
  have 3: "parse_part (''Message: '' @ m) acc = (fst acc, fst (snd acc), Some m)" for acc
    using val [OF assms(3)] by (cases acc) (simp add: parse_part_def startswith_def)
  show ?thesis
    by (simp only: list.map fold_Cons fold_Nil o_apply id_apply u ts ms 1 2 3 fst_conv snd_conv)
qed

text \<open>
  Claim C7, as stated, fails: a message text with a \<^verbatim>\<open>|\<close> in it is cut at the bar
  when the document is parsed back.
\<close>

theorem round_trip_counterexample:
  "build_document dict_keys_str
     (Dict [(''user_name'', PyStr ''Ann''), (''timestamp'', PyStr ''2024-01-01''),
            (''message'', PyStr ''tea | coffee''), (''id'', PyStr ''7'')])
     = ''User: Ann | Timestamp: 2024-01-01 | Message: tea | coffee | id: 7''
   \<and> parse_doc_fields ''User: Ann | Timestamp: 2024-01-01 | Message: tea | coffee | id: 7''
     = (Some ''Ann'', Some ''2024-01-01'', Some ''tea'')"
  by code_simp

lemma parse_build_document:
  assumes "name = py_or (py_or (py_get d ''user_name'') (py_get d ''member_name''))
                        (py_get d ''name'')"
    and "py_truthy name"
    and "map_of d ''timestamp'' = Some tv"
    and "map_of d ''message'' = Some mv"
    and "map_of d ''id'' = Some iv"
    and "clean_value (py_str name)" and "clean_value (py_str tv)" and "clean_value (py_str mv)"
    and "CHR ''|'' \<notin> set (py_str iv)"
    and "CHR ''|'' \<notin> set (py_str (py_get d ''user_id''))"
    and "CHR ''|'' \<notin> set (py_str (py_get d ''member_id''))"
  shows "parse_doc_fields (build_document str_dict (Dict d))
           = (Some (py_str name), Some (py_str tv), Some (py_str mv))"
proof -
  let ?n = "py_str name" and ?t = "py_str tv" and ?m = "py_str mv"
  let ?head = "[''User: '' @ ?n, ''Timestamp: '' @ ?t, ''Message: '' @ ?m]"
  let ?tail = "labelled ''id'' d ''id'' @ labelled ''user_id'' d ''user_id''
                 @ labelled ''member_id'' d ''member_id''"
  have doc: "build_document str_dict (Dict d) = join '' | '' (?head @ ?tail)"
    using assms(1,2,3,4) by (simp add: build_document_def Let_def labelled_def)
  have idv: "py_get d ''id'' = iv" using assms(5) by (simp add: py_get_def)
  have pf_head: "\<forall>p \<in> set ?head. CHR ''|'' \<notin> set p"
    using assms(6,7,8) by (simp add: clean_value_def)
  have pf_tail: "\<forall>p \<in> set ?tail. CHR ''|'' \<notin> set p"
    using labelled_pipe_free [of "''id''" d "''id''"]
      labelled_pipe_free [of "''user_id''" d "''user_id''"]
      labelled_pipe_free [of "''member_id''" d "''member_id''"]
      assms(9,10,11) idv
    by auto
  have "map strip (split_char CHR ''|''
                     ([] @ join '' | '' ((''User: '' @ ?n) # (tl ?head @ ?tail))))
      = map strip ((''User: '' @ ?n) # (tl ?head @ ?tail))"
    using pf_head pf_tail by (intro split_char_join) auto
  then have parts: "map strip (split_char CHR ''|'' (build_document str_dict (Dict d)))
      = map strip ?head @ map strip ?tail"
    by (simp add: doc)
  have inert_tail: "\<forall>p \<in> set (map strip ?tail). inert p"
    using labelled_inert [of "''id''" d "''id''"]
      labelled_inert [of "''user_id''" d "''user_id''"]
      labelled_inert [of "''member_id''" d "''member_id''"]
    by (auto simp: label_chars)
  have "fold parse_part (map strip ?head @ map strip ?tail) (None, None, None)
      = fold parse_part (map strip ?tail) (Some ?n, Some ?t, Some ?m)"
    using parse_labelled_values [OF assms(6,7,8)] by (simp only: fold_append o_apply)
  also have "\<dots> = (Some ?n, Some ?t, Some ?m)"
    using inert_tail by (rule fold_parse_part_inert)
  finally have "fold parse_part (map strip (split_char CHR ''|'' (build_document str_dict (Dict d))))
      (None, None, None) = (Some ?n, Some ?t, Some ?m)"
    by (simp only: parts)
  then show ?thesis
    using assms(6,7,8) by (simp add: parse_doc_fields_def Let_def or_none_def clean_value_def)
qed

text \<open>
  Claim C7, amended. Take a record with a name, a timestamp, a message and an id, where
  name, timestamp and message are strings that are not empty, have no \<^verbatim>\<open>|\<close> and
  neither begin nor end with whitespace, and where no id value has a \<^verbatim>\<open>|\<close>. The
  segment parser, applied to the document made from the record, returns the name, the
  timestamp and the message of the record.
\<close>

theorem round_trip:
  assumes "py_or (py_or (py_get d ''user_name'') (py_get d ''member_name''))
                 (py_get d ''name'') = PyStr n"
    and "map_of d ''timestamp'' = Some (PyStr t)"
    and "map_of d ''message'' = Some (PyStr m)"
    and "map_of d ''id'' = Some iv"
    and "clean_value n" and "clean_value t" and "clean_value m"
    and "CHR ''|'' \<notin> set (py_str iv)"
    and "CHR ''|'' \<notin> set (py_str (py_get d ''user_id''))"
    and "CHR ''|'' \<notin> set (py_str (py_get d ''member_id''))"
  shows "parse_doc_fields (build_document str_dict (Dict d)) = (Some n, Some t, Some m)"
proof -
  have "py_truthy (PyStr n)" using assms(5) by (simp add: clean_value_def)
  with parse_build_document [of "PyStr n" d "PyStr t" "PyStr m" iv str_dict] assms
  show ?thesis by simp
qed

theorem round_trip_witness:
  "parse_doc_fields
     (build_document dict_keys_str
        (Dict [(''user_name'', PyStr ''Ann Lee''), (''timestamp'', PyStr ''2024-01-01''),
               (''message'', PyStr ''tea, then coffee''), (''id'', PyStr ''7''),
               (''user_id'', PyStr ''u1'')]))
     = (Some ''Ann Lee'', Some ''2024-01-01'', Some ''tea, then coffee'')"
proof -
  let ?d = "[(''user_name'', PyStr ''Ann Lee''), (''timestamp'', PyStr ''2024-01-01''),
             (''message'', PyStr ''tea, then coffee''), (''id'', PyStr ''7''),
             (''user_id'', PyStr ''u1'')]"
  have 1: "py_or (py_or (py_get ?d ''user_name'') (py_get ?d ''member_name''))
                 (py_get ?d ''name'') = PyStr ''Ann Lee''"
    by code_simp
  have 3: "map_of ?d ''timestamp'' = Some (PyStr ''2024-01-01'')"
    and 4: "map_of ?d ''message'' = Some (PyStr ''tea, then coffee'')"
    and 5: "map_of ?d ''id'' = Some (PyStr ''7'')"
    by simp_all
  have 6: "clean_value ''Ann Lee''"
    and 7: "clean_value ''2024-01-01''"
    and 8: "clean_value ''tea, then coffee''"
    by code_simp+
  have 9: "CHR ''|'' \<notin> set (py_str (PyStr ''7''))"
    and 10: "CHR ''|'' \<notin> set (py_str (py_get ?d ''user_id''))"
    and 11: "CHR ''|'' \<notin> set (py_str (py_get ?d ''member_id''))"
    by code_simp+
  show ?thesis by (rule round_trip [OF 1 3 4 5 6 7 8 9 10 11])
qed

subsection \<open>Answering leaves the object as it was\<close>

lemma put_simps:
  "cells (put a ob s) = (cells s)(a \<mapsto> ob)" "next_addr (put a ob s) = next_addr s"
  by (simp_all add: put_def)

lemma alloc_simps:
  "fst (alloc ob s) = next_addr s"
  "cells (snd (alloc ob s)) = (cells s)(next_addr s \<mapsto> ob)"
  "next_addr (snd (alloc ob s)) = Suc (next_addr s)"
  by (simp_all add: alloc_def)

lemma case_alloc:
  "(case alloc ob s of (a, s1) \<Rightarrow> f a s1) = f (next_addr s) (snd (alloc ob s))"
  by (simp add: alloc_def)

lemma keeps_refl: "keeps n s s"
  by (simp add: keeps_def)

lemma keeps_trans: "keeps n s s1 \<Longrightarrow> keeps n s1 s2 \<Longrightarrow> keeps n s s2"
  by (simp add: keeps_def)

lemma keeps_mono: "keeps m s s1 \<Longrightarrow> n \<le> m \<Longrightarrow> keeps n s s1"
  by (simp add: keeps_def)

lemma keeps_alloc: "n \<le> next_addr s \<Longrightarrow> keeps n s (snd (alloc ob s))"
  by (simp add: keeps_def alloc_simps)

lemma keeps_put: "n \<le> a \<Longrightarrow> keeps n s (put a ob s)"
  by (simp add: keeps_def put_simps)

lemma keeps_outside:
  assumes "next_addr s \<le> next_addr s1" and "\<And>a. a \<noteq> b \<Longrightarrow> cells s1 a = cells s a" and "n \<le> b"
  shows "keeps n s s1"
  using assms by (simp add: keeps_def)

text \<open>What is read below the bound is the same in both stores.\<close>

lemma view_keeps:
  assumes "well_formed n s self" and "keeps n s s1"
  shows "view s1 self = view s self" and "well_formed n s1 self"
proof -
  from assms(1) obtain d nm v m where inst: "cells s self = Some (Instance d nm v m)"
    and b: "self < n" "d < n" "nm < n"
      "case v of None \<Rightarrow> True | Some a \<Rightarrow> a < n" "case m of None \<Rightarrow> True | Some a \<Rightarrow> a < n"
    by (auto simp: well_formed_def split: option.splits obj.splits)
  from assms(2) have eq: "\<And>a. a < n \<Longrightarrow> cells s1 a = cells s a"
    by (simp add: keeps_def)
  have inst1: "cells s1 self = Some (Instance d nm v m)"
    using eq [OF b(1)] inst by simp
  show "well_formed n s1 self"
    using inst1 b by (simp add: well_formed_def)
  have "self_documents s1 self = self_documents s self"
    using inst inst1 eq [OF b(2)] by (simp add: self_documents_def doc_list_def)
  moreover have "self_user_names s1 self = self_user_names s self"
    using inst inst1 eq [OF b(3)] by (simp add: self_user_names_def name_list_def)
  moreover have "self_vectorizer s1 self = self_vectorizer s self"
    using inst inst1 b(4) eq by (cases v) (simp_all add: self_vectorizer_def)
  moreover have "self_doc_matrix s1 self = self_doc_matrix s self"
    using inst inst1 b(5) eq by (cases m) (simp_all add: self_doc_matrix_def)
  ultimately show "view s1 self = view s self"
    by (simp add: view_def)
qed

lemma well_formed_mono: "well_formed n s self \<Longrightarrow> n \<le> m \<Longrightarrow> well_formed m s self"
  by (auto simp: well_formed_def split: option.splits obj.splits)

subsubsection \<open>The loops\<close>

lemma full_match_loop:
  "next_addr (fold (full_match_step ql full) ps s) = next_addr s
   \<and> (\<forall>a. a \<noteq> full \<longrightarrow> cells (fold (full_match_step ql full) ps s) a = cells s a)
   \<and> index_list (fold (full_match_step ql full) ps s) full
       = index_list s full
         @ map fst (filter (\<lambda>(idx, name). truthy name \<and> contains ql (lower (the name))) ps)"
proof (induction ps arbitrary: s)
  case Nil
  then show ?case by simp
next
  case (Cons p ps)
  obtain idx name where p: "p = (idx, name)" by (cases p)
  show ?case
    using Cons.IH [of "full_match_step ql full p s"]
    by (auto simp: p full_match_step_def list_append_def put_simps index_list_def)
qed

lemma mask_loop:
  "next_addr (fold (\<lambda>i s. if P i then put sc (ScoreArray ((score_array s sc)[i := 0])) s else s)
                is s) = next_addr s
   \<and> (\<forall>a. a \<noteq> sc \<longrightarrow>
        cells (fold (\<lambda>i s. if P i then put sc (ScoreArray ((score_array s sc)[i := 0])) s else s)
                 is s) a = cells s a)
   \<and> score_array (fold (\<lambda>i s. if P i then put sc (ScoreArray ((score_array s sc)[i := 0])) s
                                else s) is s) sc
       = fold (\<lambda>i xs. if P i then xs[i := 0] else xs) is (score_array s sc)"
proof (induction "is" arbitrary: s)
  case Nil
  then show ?case by simp
next
  case (Cons i "is")
  show ?case
    using Cons.IH [of "if P i then put sc (ScoreArray ((score_array s sc)[i := 0])) s else s"]
    by (auto simp: put_simps score_array_def)
qed

lemma discard_loop:
  assumes "qt \<noteq> atk"
  shows "next_addr (fold (\<lambda>np s. set_discard atk np (set_discard qt np s)) nps s) = next_addr s
   \<and> (\<forall>a. a \<noteq> qt \<and> a \<noteq> atk \<longrightarrow>
        cells (fold (\<lambda>np s. set_discard atk np (set_discard qt np s)) nps s) a = cells s a)
   \<and> token_set (fold (\<lambda>np s. set_discard atk np (set_discard qt np s)) nps s) qt
       = token_set s qt - set nps
   \<and> token_set (fold (\<lambda>np s. set_discard atk np (set_discard qt np s)) nps s) atk
       = token_set s atk - set nps"
proof (induction nps arbitrary: s)
  case Nil
  then show ?case by simp
next
  case (Cons np nps)
  show ?case
    using Cons.IH [of "set_discard atk np (set_discard qt np s)"] assms
    by (auto simp: set_discard_def put_simps token_set_def)
qed


subsubsection \<open>The dictionary of the fallback in the store\<close>

lemma setdefault_append_present:
  "distinct (map snd al) \<Longrightarrow> map_of al name = Some a \<Longrightarrow>
     setdefault_append (map (\<lambda>(k, x). (k, f x)) al) name idx
       = map (\<lambda>(k, x). (k, if x = a then f x @ [idx] else f x)) al"
proof (induction al)
  case Nil
  then show ?case by simp
next
  case (Cons p al)
  obtain k x where p: "p = (k, x)" by (cases p)
  show ?case
  proof (cases "k = name")
    case True
    with Cons.prems p have xa: "x = a" and "x \<notin> snd ` set al" by auto
    then have "y \<noteq> a" if "(k', y) \<in> set al" for k' y
      using that by force
    then have "map (\<lambda>(k, x). (k, if x = a then f x @ [idx] else f x)) al
        = map (\<lambda>(k, x). (k, f x)) al"
      by (intro map_cong) auto
    with True xa show ?thesis by (simp add: p)
  next
    case False
    with Cons.prems p have m: "map_of al name = Some a" and d: "distinct (map snd al)"
      and "x \<notin> snd ` set al"
      by auto
    moreover from m have "a \<in> snd ` set al" by (force dest: map_of_SomeD)
    ultimately have "x \<noteq> a" by auto
    with False Cons.IH [OF d m] show ?thesis by (simp add: p)
  qed
qed

lemma setdefault_append_absent:
  "map_of al name = None \<Longrightarrow>
     setdefault_append (map (\<lambda>(k, x). (k, f x)) al) name idx
       = map (\<lambda>(k, x). (k, f x)) al @ [(name, [idx])]"
  by (induction al) (auto split: if_splits)

lemma token_step_st_step:
  assumes inv: "dict_inv d s" and qt: "qt < d"
  shows "dict_inv d (token_step_st qt d p s)
    \<and> next_addr s \<le> next_addr (token_step_st qt d p s)
    \<and> (\<forall>a<d. cells (token_step_st qt d p s) a = cells s a)
    \<and> abs_dict (token_step_st qt d p s) d = token_step (token_set s qt) p (abs_dict s d)"
proof -
  obtain idx name where p: "p = (idx, name)" by (cases p)
  let ?al = "index_dict s d"
  let ?new = "next_addr s"
  from inv have dn: "d < ?new" and dist: "distinct (map snd ?al)"
    and rng: "\<And>a. a \<in> snd ` set ?al \<Longrightarrow> d < a \<and> a < ?new"
    by (auto simp: dict_inv_def list_all_iff)
  show ?thesis
  proof (cases "truthy name \<and> name_tokens (the name) \<inter> token_set s qt \<noteq> {}")
    case False
    then show ?thesis
      using inv by (auto simp: p token_step_st_def token_step_def)
  next
    case True
    let ?s1 = "snd (alloc (IndexList []) s)"
    have al1: "index_dict ?s1 d = ?al"
      using dn by (simp add: index_dict_def alloc_simps)
    show ?thesis
    proof (cases "map_of ?al (the name)")
      case (Some a)
      then have ain: "a \<in> snd ` set ?al" by (force dest: map_of_SomeD)
      with rng have a: "d < a" "a < ?new" by auto
      let ?s2 = "list_append a idx ?s1"
      have step: "token_step_st qt d p s = ?s2"
        using True Some al1 by (simp add: p token_step_st_def setdefault_st_def alloc_def
            split: prod.splits)
      have cells2: "cells ?s2 = (cells s)(?new \<mapsto> IndexList [],
                                          a \<mapsto> IndexList (index_list s a @ [idx]))"
        using a by (simp add: list_append_def put_simps alloc_simps index_list_def)
      have al2: "index_dict ?s2 d = ?al"
        using a dn by (simp add: index_dict_def cells2)
      have il: "index_list ?s2 x = (if x = a then index_list s a @ [idx] else index_list s x)"
        if "(k, x) \<in> set ?al" for k x
      proof -
        from that have "x \<in> snd ` set ?al" by force
        from rng [OF this] show ?thesis by (simp add: index_list_def cells2)
      qed
      have "abs_dict ?s2 d = map (\<lambda>(k, x). (k, if x = a then index_list s x @ [idx]
                                                 else index_list s x)) ?al"
        unfolding abs_dict_def al2 by (intro map_cong) (auto simp: il)
      also have "\<dots> = setdefault_append (abs_dict s d) (the name) idx"
        unfolding abs_dict_def by (rule setdefault_append_present [OF dist Some, symmetric])
      finally have abs: "abs_dict ?s2 d = token_step (token_set s qt) p (abs_dict s d)"
        using True by (simp add: p token_step_def)
      have n2: "next_addr ?s2 = Suc (next_addr s)"
        by (simp add: list_append_def put_simps alloc_simps)
      have "dict_inv d ?s2"
        using dn dist rng
        by (auto simp: dict_inv_def list_all_iff al2 n2 intro: less_SucI)
      moreover have "next_addr s \<le> next_addr ?s2"
        by (simp add: n2)
      moreover have "\<forall>b<d. cells ?s2 b = cells s b"
        using a dn by (simp add: cells2)
      ultimately show ?thesis using abs by (simp add: step)
    next
      case None
      let ?s2 = "put d (IndexDict (?al @ [(the name, ?new)])) ?s1"
      let ?s3 = "list_append ?new idx ?s2"
      have step: "token_step_st qt d p s = ?s3"
        using True None al1 by (simp add: p token_step_st_def setdefault_st_def alloc_def
            split: prod.splits)
      have cells3: "cells ?s3 = (cells s)(?new \<mapsto> IndexList [idx],
                                          d \<mapsto> IndexDict (?al @ [(the name, ?new)]))"
        using dn by (auto simp: list_append_def put_simps alloc_simps index_list_def)
      have al3: "index_dict ?s3 d = ?al @ [(the name, ?new)]"
        by (subst index_dict_def) (simp add: cells3)
      have il: "index_list ?s3 x = index_list s x" if "(k, x) \<in> set ?al" for k x
      proof -
        from that have "x \<in> snd ` set ?al" by force
        from rng [OF this] show ?thesis by (simp add: index_list_def cells3)
      qed
      have ilnew: "index_list ?s3 ?new = [idx]"
        using dn by (simp add: index_list_def cells3)
      have "map (\<lambda>(k, x). (k, index_list ?s3 x)) ?al = map (\<lambda>(k, x). (k, index_list s x)) ?al"
        by (intro map_cong) (auto simp: il)
      then have "abs_dict ?s3 d = abs_dict s d @ [(the name, [idx])]"
        by (simp add: abs_dict_def al3 ilnew)
      also have "\<dots> = setdefault_append (abs_dict s d) (the name) idx"
        unfolding abs_dict_def by (rule setdefault_append_absent [OF None, symmetric])
      finally have abs: "abs_dict ?s3 d = token_step (token_set s qt) p (abs_dict s d)"
        using True by (simp add: p token_step_def)
      have n3: "next_addr ?s3 = Suc (next_addr s)"
        by (simp add: list_append_def put_simps alloc_simps)
      have "?new \<notin> snd ` set ?al" using rng by auto
      then have "dict_inv d ?s3"
        using dn dist rng
        by (auto simp: dict_inv_def list_all_iff al3 n3 intro: less_SucI)
      moreover have "next_addr s \<le> next_addr ?s3"
        by (simp add: n3)
      moreover have "\<forall>b<d. cells ?s3 b = cells s b"
        using dn by (simp add: cells3)
      ultimately show ?thesis using abs by (simp add: step)
    qed
  qed
qed

lemma token_loop:
  assumes "dict_inv d s" and "qt < d"
  shows "dict_inv d (fold (token_step_st qt d) ps s)
    \<and> next_addr s \<le> next_addr (fold (token_step_st qt d) ps s)
    \<and> (\<forall>a<d. cells (fold (token_step_st qt d) ps s) a = cells s a)
    \<and> abs_dict (fold (token_step_st qt d) ps s) d
        = fold (token_step (token_set s qt)) ps (abs_dict s d)"
  using assms(1)
proof (induction ps arbitrary: s)
  case Nil
  then show ?case by simp
next
  case (Cons p ps)
  let ?s1 = "token_step_st qt d p s"
  note st = token_step_st_step [OF Cons.prems assms(2), of p]
  from st have inv1: "dict_inv d ?s1" by simp
  from st assms(2) have "cells ?s1 qt = cells s qt" by simp
  then have ts: "token_set ?s1 qt = token_set s qt" by (simp add: token_set_def)
  from Cons.IH [OF inv1] st ts show ?case by auto
qed


subsubsection \<open>The phases of answer in the store\<close>

lemma resolve_name_st_correct:
  assumes wf: "well_formed n s self" and n: "n \<le> next_addr s"
    and qt: "qt < next_addr s" and ts: "token_set s qt = tokenize question"
  shows "case resolve_name_st self question qt s of
           ((cand, r), s1) \<Rightarrow>
             keeps (next_addr s) s s1 \<and> cand < next_addr s1
             \<and> (index_list s1 cand, r)
                 = resolve_name (self_user_names s self) (length (self_documents s self))
                     question"
proof -
  let ?names = "self_user_names s self" and ?docs = "self_documents s self"
  let ?c0 = "next_addr s"
  let ?s1 = "snd (alloc (IndexList [0..<length ?docs]) s)"
  let ?full = "Suc ?c0"
  let ?s2 = "snd (alloc (IndexList []) ?s1)"
  let ?s3 = "fold (full_match_step (lower question) ?full) (enumerate 0 ?names) ?s2"
  have k2: "keeps ?c0 s ?s2"
    by (simp add: keeps_def alloc_simps)
  have v2: "view ?s2 self = view s self"
    using wf keeps_mono [OF k2 n] by (rule view_keeps)
  then have names2: "self_user_names ?s2 self = ?names"
    by (simp add: view_def)
  note l3 = full_match_loop [of "lower question" ?full "enumerate 0 ?names" ?s2]
  have n3: "next_addr ?s3 = Suc (Suc ?c0)"
    using l3 by (simp add: alloc_simps)
  have c3: "cells ?s3 a = cells ?s2 a" if "a \<noteq> ?full" for a
    using l3 that by simp
  have k3: "keeps ?c0 s ?s3"
    using c3 by (auto simp: keeps_def n3 alloc_simps)
  have f3: "index_list ?s3 ?full = full_match_indices ?names (lower question)"
    using l3 by (simp add: full_match_indices_def index_list_def alloc_simps)
  have unfold: "resolve_name_st self question qt s =
      (if index_list ?s3 ?full \<noteq> [] then ((?full, True), ?s3)
       else
         (case alloc (IndexDict []) ?s3 of (d, s4) \<Rightarrow>
            let s5 = fold (token_step_st qt d) (enumerate 0 (self_user_names s4 self)) s4
            in (case index_dict s5 d of
                  [(name, only_indices)] \<Rightarrow> ((only_indices, True), s5)
                | _ \<Rightarrow>
                  (case alloc (IndexList [0..<length (self_documents s5 self)]) s5 of
                     (all_indices, s6) \<Rightarrow> ((all_indices, False), s6)))))"
    by (simp add: resolve_name_st_def case_alloc alloc_simps names2 Let_def)
  show ?thesis
  proof (cases "full_match_indices ?names (lower question) = []")
    case False
    then have "resolve_name_st self question qt s = ((?full, True), ?s3)"
      by (simp add: unfold f3)
    moreover have "resolve_name ?names (length ?docs) question
        = (full_match_indices ?names (lower question), True)"
      using False by (simp add: resolve_name_def Let_def)
    ultimately show ?thesis
      using k3 f3 n3 by simp
  next
    case True
    let ?d = "Suc (Suc ?c0)"
    let ?s4 = "snd (alloc (IndexDict []) ?s3)"
    let ?s5 = "fold (token_step_st qt ?d) (enumerate 0 ?names) ?s4"
    have k4: "keeps ?c0 s ?s4"
      using k3 by (auto simp: keeps_def alloc_simps n3)
    have v4: "view ?s4 self = view s self"
      using wf keeps_mono [OF k4 n] by (rule view_keeps)
    then have names4: "self_user_names ?s4 self = ?names"
      by (simp add: view_def)
    have inv4: "dict_inv ?d ?s4"
      by (simp add: dict_inv_def index_dict_def alloc_simps n3)
    have qd: "qt < ?d" using qt by simp
    note l5 = token_loop [OF inv4 qd, of "enumerate 0 ?names"]
    have ts4: "token_set ?s4 qt = tokenize question"
    proof -
      from k4 qt have "cells ?s4 qt = cells s qt" by (simp add: keeps_def)
      with ts show ?thesis by (simp add: token_set_def)
    qed
    have abs4: "abs_dict ?s4 ?d = []"
      by (simp add: abs_dict_def index_dict_def alloc_simps n3)
    have abs5: "abs_dict ?s5 ?d = matches_by_full_name ?names (tokenize question)"
      using l5 by (simp add: ts4 abs4 matches_by_full_name_def)
    have k5: "keeps ?c0 s ?s5"
    proof -
      from l5 have "next_addr ?s4 \<le> next_addr ?s5" and "\<forall>a<?d. cells ?s5 a = cells ?s4 a"
        by simp_all
      then have "keeps ?c0 ?s4 ?s5" by (simp add: keeps_def)
      with k4 show ?thesis by (rule keeps_trans)
    qed
    have v5: "view ?s5 self = view s self"
      using wf keeps_mono [OF k5 n] by (rule view_keeps)
    then have docs5: "self_documents ?s5 self = ?docs"
      by (simp add: view_def)
    have st: "resolve_name_st self question qt s =
        (case index_dict ?s5 ?d of
           [(name, only_indices)] \<Rightarrow> ((only_indices, True), ?s5)
         | _ \<Rightarrow> ((next_addr ?s5, False),
                  snd (alloc (IndexList [0..<length ?docs]) ?s5)))"
      using True
      by (auto simp: unfold f3 case_alloc n3 names4 docs5 Let_def alloc_simps
          split: list.splits)
    have pure: "resolve_name ?names (length ?docs) question =
        (case abs_dict ?s5 ?d of
           [(name, only_indices)] \<Rightarrow> (only_indices, True)
         | _ \<Rightarrow> ([0..<length ?docs], False))"
      using True by (simp add: resolve_name_def Let_def abs5)
    show ?thesis
    proof (cases "\<exists>name only. index_dict ?s5 ?d = [(name, only)]")
      case True
      then obtain name only where one: "index_dict ?s5 ?d = [(name, only)]" by blast
      from l5 have "dict_inv ?d ?s5" by simp
      with one have "only < next_addr ?s5" by (simp add: dict_inv_def)
      moreover have "resolve_name_st self question qt s = ((only, True), ?s5)"
        by (simp add: st one)
      moreover have "resolve_name ?names (length ?docs) question = (index_list ?s5 only, True)"
        by (simp add: pure abs_dict_def one)
      ultimately show ?thesis using k5 by simp
    next
      case False
      let ?s6 = "snd (alloc (IndexList [0..<length ?docs]) ?s5)"
      from False have "resolve_name_st self question qt s = ((next_addr ?s5, False), ?s6)"
        by (auto simp: st split: list.splits)
      moreover from False have "resolve_name ?names (length ?docs) question
          = ([0..<length ?docs], False)"
        by (auto simp: pure abs_dict_def split: list.splits)
      moreover have "keeps ?c0 s ?s6"
        using k5 by (auto simp: keeps_def alloc_simps)
      moreover have "index_list ?s6 (next_addr ?s5) = [0..<length ?docs]"
        by (simp add: index_list_def alloc_simps)
      ultimately show ?thesis by (simp add: alloc_simps)
    qed
  qed
qed

lemma mask_st_correct:
  "next_addr (mask_st self cand sc s) = next_addr s
   \<and> (\<forall>a. a \<noteq> sc \<longrightarrow> cells (mask_st self cand sc s) a = cells s a)
   \<and> score_array (mask_st self cand sc s) sc
       = mask_scores (index_list s cand) (length (self_documents s self)) (score_array s sc)"
  using mask_loop [of "\<lambda>i. i \<notin> set (index_list s cand)" sc "[0..<length (score_array s sc)]" s]
  by (simp add: mask_st_def mask_scores_def zero_outside_def Let_def)

lemma topic_overlap_ok_st_correct:
  "fst (topic_overlap_ok_st question doc user_name s) = topic_overlap_ok question doc user_name
   \<and> keeps (next_addr s) s (snd (topic_overlap_ok_st question doc user_name s))"
proof -
  let ?qt = "next_addr s" and ?atk = "Suc (next_addr s)"
  let ?s1 = "snd (alloc (TokenSet (tokenize question)) s)"
  let ?s2 = "snd (alloc (TokenSet (tokenize doc)) ?s1)"
  let ?nps = "if truthy user_name then findall_words (lower (the user_name)) else []"
  let ?s3 = "fold (\<lambda>np s. set_discard ?atk np (set_discard ?qt np s)) ?nps ?s2"
  have un: "topic_overlap_ok_st question doc user_name s =
      (if token_set ?s3 ?qt \<inter> token_set ?s3 ?atk \<noteq> {} then True
       else list_ex (\<lambda>g. token_set ?s3 ?qt \<inter> g \<noteq> {} \<and> token_set ?s3 ?atk \<inter> g \<noteq> {})
                    topic_groups, ?s3)"
    by (simp add: topic_overlap_ok_st_def tokenize_st_def case_alloc alloc_simps Let_def)
  have ne: "?qt \<noteq> ?atk" by simp
  note l = discard_loop [OF ne, of ?nps ?s2]
  have q: "token_set ?s3 ?qt = tokenize question - set ?nps"
    using l by (simp add: token_set_def alloc_simps)
  have a: "token_set ?s3 ?atk = tokenize doc - set ?nps"
    using l by (simp add: token_set_def alloc_simps)
  have "keeps (next_addr s) s ?s3"
    using l by (auto simp: keeps_def alloc_simps)
  moreover have "fst (topic_overlap_ok_st question doc user_name s)
      = topic_overlap_ok question doc user_name"
    unfolding un fst_conv q a by (simp add: topic_overlap_ok_def Let_def)
  ultimately show ?thesis by (simp add: un)
qed

lemma part_append_simps:
  "next_addr (part_append a p s) = next_addr s"
  "b \<noteq> a \<Longrightarrow> cells (part_append a p s) b = cells s b"
  "part_list (part_append a p s) a = part_list s a @ [p]"
  by (simp_all add: part_append_def put_simps part_list_def)

lemma answer_from_doc_st_correct:
  "fst (answer_from_doc_st question doc s) = answer_from_doc question doc
   \<and> keeps (next_addr s) s (snd (answer_from_doc_st question doc s))"
proof -
  obtain user_name timestamp message
    where parse: "parse_doc_fields doc = (user_name, timestamp, message)"
    by (cases "parse_doc_fields doc") auto
  obtain ok s1 where t: "topic_overlap_ok_st question doc user_name s = (ok, s1)"
    by (cases "topic_overlap_ok_st question doc user_name s") auto
  from topic_overlap_ok_st_correct [of question doc user_name s] t
  have ok: "ok = topic_overlap_ok question doc user_name" and k1: "keeps (next_addr s) s s1"
    by simp_all
  from k1 have le: "next_addr s \<le> next_addr s1" by (simp add: keeps_def)
  let ?parts = "next_addr s1"
  let ?s2 = "snd (alloc (PartList []) s1)"
  let ?s3 = "if truthy user_name then part_append ?parts (''Member: '' @ the user_name) ?s2
             else ?s2"
  let ?s4 = "if truthy timestamp then part_append ?parts (''Timestamp: '' @ the timestamp) ?s3
             else ?s3"
  let ?s5 = "if truthy message then part_append ?parts (''Message: '' @ the message) ?s4
             else ?s4"
  have pl: "part_list ?s5 ?parts =
      (if truthy user_name then [''Member: '' @ the user_name] else [])
      @ (if truthy timestamp then [''Timestamp: '' @ the timestamp] else [])
      @ (if truthy message then [''Message: '' @ the message] else [])"
    by (simp add: part_append_simps) (simp add: part_list_def alloc_simps)
  have k5: "keeps (next_addr s) s1 ?s5"
    using le by (auto simp: keeps_def part_append_simps alloc_simps)
  have un: "answer_from_doc_st question doc s =
      (if \<not> ok then (msg_not_available, s1)
       else if \<not> truthy user_name \<and> \<not> truthy timestamp \<and> \<not> truthy message then (doc, s1)
       else (if part_list ?s5 ?parts \<noteq> [] then join '' | '' (part_list ?s5 ?parts) else doc,
             ?s5))"
    by (simp add: answer_from_doc_st_def parse t case_alloc Let_def)
  have "fst (answer_from_doc_st question doc s) = answer_from_doc question doc"
    unfolding un pl by (simp add: answer_from_doc_def parse ok Let_def)
  moreover have "keeps (next_addr s) s (snd (answer_from_doc_st question doc s))"
    unfolding un using k1 keeps_trans [OF k1 k5] by simp
  ultimately show ?thesis by simp
qed


lemma view_fields:
  "documents (view s self) = self_documents s self"
  "user_names (view s self) = self_user_names s self"
  "vectorizer (view s self) = self_vectorizer s self"
  "doc_matrix (view s self) = self_doc_matrix s self"
  by (simp_all add: view_def)

lemma answer_st_correct:
  assumes wf: "well_formed (next_addr s) s self"
  shows "fst (answer_st lk self q0 s) = answer lk (view s self) q0
    \<and> keeps (next_addr s) s (snd (answer_st lk self q0 s))"
proof (cases "self_documents s self = [] \<or> self_vectorizer s self = None
              \<or> self_doc_matrix s self = None \<or> strip q0 = []")
  case True
  then show ?thesis
    by (auto simp: answer_st_def answer_def view_fields keeps_refl Let_def)
next
  case False
  define q where "q = strip q0"
  from False have g1: "\<not> (self_documents s self = [] \<or> self_vectorizer s self = None
                            \<or> self_doc_matrix s self = None)"
    and g2: "q \<noteq> []"
    by (simp_all add: q_def)
  let ?n = "next_addr s"
  let ?docs = "self_documents s self" and ?names = "self_user_names s self"
  let ?s1 = "snd (alloc (TokenSet (tokenize q)) s)"
  have k1: "keeps ?n s ?s1" by (simp add: keeps_alloc)
  have wf1: "well_formed ?n ?s1 self" and v1: "view ?s1 self = view s self"
    using view_keeps [OF wf k1] by simp_all
  have ts1: "token_set ?s1 ?n = tokenize q"
    by (simp add: token_set_def alloc_simps)
  obtain cand r s2 where res: "resolve_name_st self q ?n ?s1 = ((cand, r), s2)"
    by (metis prod.exhaust)
  have le1: "?n \<le> next_addr ?s1" and qt1: "?n < next_addr ?s1"
    by (simp_all add: alloc_simps)
  from resolve_name_st_correct [OF wf1 le1 qt1 ts1] res
  have k12: "keeps (next_addr ?s1) ?s1 s2" and cand: "cand < next_addr s2"
    and rn: "(index_list s2 cand, r)
               = resolve_name (self_user_names ?s1 self) (length (self_documents ?s1 self)) q"
    by (simp_all add: alloc_simps)
  from v1 have rn': "resolve_name ?names (length ?docs) q = (index_list s2 cand, r)"
    using rn by (simp add: view_def)
  have k2: "keeps ?n s s2"
    using k1 keeps_mono [OF k12] by (auto intro: keeps_trans simp: alloc_simps)
  have wf2: "well_formed ?n s2 self" and v2: "view s2 self = view s self"
    using view_keeps [OF wf k2] by simp_all
  from k2 have n2: "?n \<le> next_addr s2" by (simp add: keeps_def)
  have un: "answer_st lk self q0 s =
      (case lk (the (self_vectorizer s2 self)) (the (self_doc_matrix s2 self)) q of
         Inl e \<Rightarrow> (Inl e, s2)
       | Inr scores0 \<Rightarrow>
           (case alloc (ScoreArray scores0) s2 of (scores, s3) \<Rightarrow>
              let s4 = mask_st self cand scores s3
              in (case argmax (score_array s4 scores) of
                    None \<Rightarrow> (Inl ValueError, s4)
                  | Some best_idx \<Rightarrow>
                      let best_score = score_array s4 scores ! best_idx
                      in if best_score \<le> 0 \<or> best_score < min_score r
                         then (Inr msg_not_available, s4)
                         else if length (self_documents s4 self) \<le> best_idx
                         then (Inl IndexError, s4)
                         else
                           (case answer_from_doc_st q (self_documents s4 self ! best_idx) s4 of
                              (a, s5) \<Rightarrow> (Inr a, s5)))))"
    using g1 g2 unfolding answer_st_def Let_def tokenize_st_def case_alloc q_def [symmetric] res
    by (simp del: not_None_eq)
  have pure: "answer lk (view s self) q0 =
      (case lk (the (self_vectorizer s self)) (the (self_doc_matrix s self)) q of
         Inl e \<Rightarrow> Inl e
       | Inr scores0 \<Rightarrow>
           let scores = mask_scores (index_list s2 cand) (length ?docs) scores0
           in (case argmax scores of
                 None \<Rightarrow> Inl ValueError
               | Some best_idx \<Rightarrow>
                   let best_score = scores ! best_idx
                   in if best_score \<le> 0 \<or> best_score < min_score r
                      then Inr msg_not_available
                      else if length ?docs \<le> best_idx then Inl IndexError
                      else Inr (answer_from_doc q (?docs ! best_idx))))"
    using g1 g2 unfolding answer_def view_fields Let_def q_def [symmetric] rn'
    by (simp del: not_None_eq)
  from v2 have vm: "self_vectorizer s2 self = self_vectorizer s self"
    "self_doc_matrix s2 self = self_doc_matrix s self"
    by (simp_all add: view_def)
  show ?thesis
  proof (cases "lk (the (self_vectorizer s self)) (the (self_doc_matrix s self)) q")
    case (Inl e)
    then show ?thesis using k2 by (simp add: un pure vm)
  next
    case (Inr scores0)
    let ?sc = "next_addr s2"
    let ?s3 = "snd (alloc (ScoreArray scores0) s2)"
    let ?s4 = "mask_st self cand ?sc ?s3"
    note m = mask_st_correct [of self cand ?sc ?s3]
    have k3: "keeps ?n s ?s3"
      using k2 keeps_alloc [OF n2] by (rule keeps_trans)
    have v3: "view ?s3 self = view s self"
      using view_keeps [OF wf k3] by simp
    have k4: "keeps ?n s ?s4"
    proof -
      have "keeps ?n ?s3 ?s4"
        using m n2 by (intro keeps_outside [of _ _ ?sc]) simp_all
      with k3 show ?thesis by (rule keeps_trans)
    qed
    have v4: "view ?s4 self = view s self"
      using view_keeps [OF wf k4] by simp
    then have docs4: "self_documents ?s4 self = ?docs" by (simp add: view_def)
    have il3: "index_list ?s3 cand = index_list s2 cand"
      using cand by (simp add: index_list_def alloc_simps)
    have docs3: "self_documents ?s3 self = ?docs"
      using v3 by (simp add: view_def)
    have sc4: "score_array ?s4 ?sc = mask_scores (index_list s2 cand) (length ?docs) scores0"
      using m by (simp add: il3 docs3) (simp add: score_array_def alloc_simps)
    have un': "answer_st lk self q0 s =
        (case argmax (score_array ?s4 ?sc) of
           None \<Rightarrow> (Inl ValueError, ?s4)
         | Some best_idx \<Rightarrow>
             if score_array ?s4 ?sc ! best_idx \<le> 0
                \<or> score_array ?s4 ?sc ! best_idx < min_score r
             then (Inr msg_not_available, ?s4)
             else if length ?docs \<le> best_idx then (Inl IndexError, ?s4)
             else (Inr (fst (answer_from_doc_st q (?docs ! best_idx) ?s4)),
                   snd (answer_from_doc_st q (?docs ! best_idx) ?s4)))"
      unfolding un vm Inr sum.case case_alloc Let_def docs4
      by (auto simp: split_beta split: option.splits)
    have kf: "keeps ?n s (snd (answer_from_doc_st q d ?s4))" for d
    proof -
      from k4 have "?n \<le> next_addr ?s4" by (simp add: keeps_def)
      with answer_from_doc_st_correct [of q d ?s4]
      have "keeps ?n ?s4 (snd (answer_from_doc_st q d ?s4))"
        by (auto intro: keeps_mono)
      with k4 show ?thesis by (rule keeps_trans)
    qed
    show ?thesis
      using k4 kf answer_from_doc_st_correct [of q _ ?s4]
      by (auto simp: un' pure Inr sc4 Let_def split: option.splits)
  qed
qed


text \<open>
  Claim C10. A call of \<open>answer\<close> on a well-formed instance writes to no cell that
  existed before the call: the instance, its document list, its name list, its
  vectorizer and its matrix are after the call what they were before. The result is
  that of the function \<open>answer\<close> on the four attributes as read before the call, and a
  second call with the same question, in the store that the first has left, returns
  the same result.
\<close>

theorem answer_st_frame:
  assumes "well_formed (next_addr s) s self"
  shows "(\<forall>a<next_addr s. cells (snd (answer_st lk self q s)) a = cells s a)
    \<and> view (snd (answer_st lk self q s)) self = view s self
    \<and> fst (answer_st lk self q s) = answer lk (view s self) q
    \<and> fst (answer_st lk self q (snd (answer_st lk self q s))) = fst (answer_st lk self q s)"
proof -
  let ?s1 = "snd (answer_st lk self q s)"
  from answer_st_correct [OF assms, of lk q]
  have r: "fst (answer_st lk self q s) = answer lk (view s self) q"
    and k: "keeps (next_addr s) s ?s1"
    by simp_all
  from view_keeps [OF assms k]
  have v: "view ?s1 self = view s self" and wf: "well_formed (next_addr s) ?s1 self"
    by simp_all
  from k have "next_addr s \<le> next_addr ?s1" by (simp add: keeps_def)
  with wf have "well_formed (next_addr ?s1) ?s1 self" by (rule well_formed_mono)
  from answer_st_correct [OF this, of lk q]
  have "fst (answer_st lk self q ?s1) = answer lk (view ?s1 self) q" by simp
  with r v k show ?thesis by (simp add: keeps_def)
qed

theorem answer_st_frame_witness:
  "fst (answer_st (fixed_scores [1 / 4]) 4 ''Where did Alice have dinner?'' example_store)
     = Inr ''Member: Alice | Timestamp: 2024-01-01 | Message: I booked dinner at the new bistro downtown''
   \<and> cells (snd (answer_st (fixed_scores [1 / 4]) 4 ''Where did Alice have dinner?''
                   example_store)) 4
     = Some (Instance 0 1 (Some 2) (Some 3))
   \<and> cells (snd (answer_st (fixed_scores [1 / 4]) 4 ''Where did Alice have dinner?''
                   example_store)) 0
     = Some (DocList example_docs)
   \<and> view (snd (answer_st (fixed_scores [1 / 4]) 4 ''Where did Alice have dinner?''
                  example_store)) 4
     = example_system"
proof -
  let ?q = "''Where did Alice have dinner?''"
  let ?lk = "fixed_scores [1 / 4] :: unit \<Rightarrow> unit \<Rightarrow> string \<Rightarrow> error + real list"
  have wf: "well_formed (next_addr example_store) example_store 4"
    by (simp add: well_formed_def example_store_def)
  have v: "view example_store 4 = example_system"
    by (simp add: view_def self_documents_def self_user_names_def self_vectorizer_def
        self_doc_matrix_def doc_list_def name_list_def example_store_def
        example_system_def build_def init_def example_docs_def Let_def)
       code_simp
  have a: "answer ?lk example_system ?q
      = Inr ''Member: Alice | Timestamp: 2024-01-01 | Message: I booked dinner at the new bistro downtown''"
    by code_simp
  note f = answer_st_frame [OF wf, of ?lk ?q]
  from f have c: "\<forall>a<next_addr example_store.
      cells (snd (answer_st ?lk 4 ?q example_store)) a = cells example_store a"
    by (rule conjunct1)
  have "cells (snd (answer_st ?lk 4 ?q example_store)) 4 = cells example_store 4"
    and "cells (snd (answer_st ?lk 4 ?q example_store)) 0 = cells example_store 0"
    using c by (simp_all add: example_store_def)
  moreover have "cells example_store 4 = Some (Instance 0 1 (Some 2) (Some 3))"
    and "cells example_store 0 = Some (DocList example_docs)"
    by (simp_all add: example_store_def)
  ultimately show ?thesis using f v a by simp
qed

end
